theory Spec2Isabelle
  imports Complex_Main "HOL-Library.Log_Nat" "HOL-Library.AList"
begin

section \<open>pypdl: segment planning, segment workers and combining (\<open>src/pypdl/utls.py\<close>)\<close>

subsection \<open>Python values the module computes with\<close>

text \<open>The exceptions that \<open>create_segment_table\<close>, \<open>combine_files\<close> and
  \<open>Multidown.worker\<close> can raise or catch.\<close>

datatype error =
    ZeroDivisionError
  | OverflowError
  | TypeError
  | KeyError
  | FileNotFoundError
  | JSONDecodeError

text \<open>
  An exception caught by \<open>Basicdown.download\<close>: its class name
  (\<open>e.__class__.__name__\<close>) and its message (\<open>str(e)\<close>), the two things the handler
  reads.
\<close>

datatype exn = Exn (cls: string) (msg: string)

text \<open>
  Values returned by \<open>json.loads\<close>.  A \<open>JObj\<close> lists the items of a Python dict in
  insertion order (its keys are distinct); a Python float is kept as the rational it
  denotes (\<open>NaN\<close> and the infinities are left out).
\<close>

datatype json =
    JNull
  | JBool bool
  | JInt int
  | JFloat rat
  | JStr string
  | JArr "json list"
  | JObj "(string \<times> json) list"

text \<open>The \<open>etag\<close> argument is \<open>Union[str, bool]\<close>.\<close>

datatype etag = EStr string | EBool bool

text \<open>
  A file system: the files that exist, each with its content.  Every path can be
  created, written and removed; directories, permissions and disk space are not
  modelled, so opening or writing a file raises only when a file to read is missing.
\<close>

type_synonym fs = "string \<rightharpoonup> string"

definition MEGABYTE :: int where
  "MEGABYTE = 1048576"

definition BLOCKSIZE :: nat where
  "BLOCKSIZE = 4096"

definition BLOCKS :: nat where
  "BLOCKS = 1024"

definition CHUNKSIZE :: nat where
  "CHUNKSIZE = BLOCKSIZE * BLOCKS"

subsection \<open>Python floats: IEEE 754 binary64, round to nearest, ties to even\<close>

text \<open>
  A finite double is modelled by the rational it denotes.  \<open>fl x\<close> is the double nearest to
  the exact value \<open>x\<close>: 53 significant bits, exponent at least \<open>-1022\<close> (below that the
  spacing stays \<open>2^-1074\<close>, the subnormal range), ties to the even significand; \<open>None\<close> when
  the rounded value is \<open>2^1024\<close> or more (overflow).
\<close>

definition pow2 :: "int \<Rightarrow> rat" where
  "pow2 e = (if 0 \<le> e then 2 ^ nat e else 1 / 2 ^ nat (- e))"

text \<open>\<open>ilog2 x\<close> is \<open>\<lfloor>log\<^sub>2 x\<rfloor>\<close> for a positive rational \<open>x\<close>.\<close>

definition ilog2 :: "rat \<Rightarrow> int" where
  "ilog2 x =
     (let (a, b) = quotient_of x;
          k = int (floorlog 2 (nat a)) - int (floorlog 2 (nat b))
      in if pow2 k \<le> x then k else k - 1)"

definition round_half_even :: "rat \<Rightarrow> int" where
  "round_half_even x =
     (let f = \<lfloor>x\<rfloor>; r = x - of_int f
      in if r < 1 / 2 then f
         else if 1 / 2 < r then f + 1
         else if even f then f else f + 1)"

definition fl :: "rat \<Rightarrow> rat option" where
  "fl x =
     (if x = 0 then Some 0
      else
        let e = max (ilog2 \<bar>x\<bar>) (- 1022) - 52;
            m = round_half_even (\<bar>x\<bar> / pow2 e);
            y = of_int m * pow2 e
        in if pow2 1024 \<le> y then None else Some (sgn x * y))"

text \<open>
  \<open>a / b\<close> on two Python ints: the correctly rounded quotient, \<open>ZeroDivisionError\<close> for a
  zero divisor, \<open>OverflowError\<close> when the quotient is too large for a float.
\<close>

definition int_truediv :: "int \<Rightarrow> int \<Rightarrow> error + rat" where
  "int_truediv a b =
     (if b = 0 then Inl ZeroDivisionError
      else case fl (of_int a / of_int b) of
             None \<Rightarrow> Inl OverflowError
           | Some q \<Rightarrow> Inr q)"

text \<open>
  \<open>int(x * k)\<close> for a float \<open>x\<close> and an int \<open>k\<close>: \<open>k\<close> is converted to a float
  (\<open>OverflowError\<close> when too large), the product is rounded, and \<open>int\<close> truncates towards
  zero (\<open>OverflowError\<close> on an infinite product).
\<close>

definition int_of_float :: "rat \<Rightarrow> int" where
  "int_of_float x = (if 0 \<le> x then \<lfloor>x\<rfloor> else \<lceil>x\<rceil>)"

definition int_float_mul :: "rat \<Rightarrow> int \<Rightarrow> error + int" where
  "int_float_mul x k =
     (case fl (of_int k) of
        None \<Rightarrow> Inl OverflowError
      | Some kf \<Rightarrow>
          (case fl (x * kf) of
             None \<Rightarrow> Inl OverflowError
           | Some p \<Rightarrow> Inr (int_of_float p)))"

definition to_mb :: "int \<Rightarrow> error + rat" where
  "to_mb size_in_bytes = int_truediv size_in_bytes MEGABYTE"

subsection \<open>\<open>str\<close> of an int\<close>

definition digit_char :: "nat \<Rightarrow> char" where
  "digit_char d = ''0123456789'' ! d"

function str_nat :: "nat \<Rightarrow> string" where
  "str_nat n = (if n < 10 then [digit_char n] else str_nat (n div 10) @ [digit_char (n mod 10)])"
  by pat_completeness auto
termination
  by (relation "measure id") auto

declare str_nat.simps [simp del]

definition str_int :: "int \<Rightarrow> string" where
  "str_int i = (if i < 0 then CHR ''-'' # str_nat (nat (- i)) else str_nat (nat i))"

subsection \<open>\<open>create_segment_table\<close>\<close>

record segment =
  seg_start :: int
  seg_end :: int
  segment_size :: int
  segment_path :: string

text \<open>
  The returned dict: \<open>"url"\<close>, \<open>"segments"\<close> (whatever value the count resolved to) and one
  item per segment number, in insertion order.
\<close>

record segment_table =
  table_url :: string
  table_segments :: json
  table_entries :: "(int \<times> segment) list"

fun truthy :: "etag \<Rightarrow> bool" where
  "truthy (EStr s) = (s \<noteq> [])"
| "truthy (EBool b) = b"

fun etag_json :: "etag \<Rightarrow> json" where
  "etag_json (EStr s) = JStr s"
| "etag_json (EBool b) = JBool b"

text \<open>\<open>progress[key]\<close>: \<open>KeyError\<close> on a dict without the key, \<open>TypeError\<close> on anything
  that is not a dict (a list, a string and a number cannot be indexed by a string).\<close>

fun subscript :: "json \<Rightarrow> string \<Rightarrow> error + json" where
  "subscript (JObj kvs) k = (case map_of kvs k of None \<Rightarrow> Inl KeyError | Some v \<Rightarrow> Inr v)"
| "subscript _ k = Inl TypeError"

text \<open>\<open>v == url\<close> for the string \<open>url\<close>.\<close>

fun eq_str :: "json \<Rightarrow> string \<Rightarrow> bool" where
  "eq_str (JStr s) t = (s = t)"
| "eq_str _ t = False"

text \<open>\<open>v == etag\<close>; Python's \<open>True\<close> and \<open>False\<close> equal the numbers 1 and 0.\<close>

fun eq_etag :: "json \<Rightarrow> etag \<Rightarrow> bool" where
  "eq_etag (JStr s) (EStr t) = (s = t)"
| "eq_etag (JBool c) (EBool b) = (c = b)"
| "eq_etag (JInt i) (EBool b) = (i = (if b then 1 else 0))"
| "eq_etag (JFloat r) (EBool b) = (r = (if b then 1 else 0))"
| "eq_etag _ _ = False"

text \<open>Line 57: the clamp.  \<open>to_mb\<close> is only evaluated when \<open>segments > 5\<close>.\<close>

definition clamp_segments :: "int \<Rightarrow> int \<Rightarrow> error + int" where
  "clamp_segments segments sz =
     (if segments > 5 then
        (case to_mb sz of
           Inl e \<Rightarrow> Inl e
         | Inr mb \<Rightarrow> Inr (if mb < 50 then 5 else segments))
      else Inr segments)"

text \<open>
  Lines 61--63, the body of the \<open>try\<close>: the new value of \<open>segments\<close>, or the exception
  raised.  \<open>loads\<close> stands for \<open>json.loads\<close> (\<open>None\<close>: it raises).
\<close>

definition read_progress ::
  "(string \<Rightarrow> json option) \<Rightarrow> fs \<Rightarrow> string \<Rightarrow> string \<Rightarrow> etag \<Rightarrow> json \<Rightarrow> error + json" where
  "read_progress loads files progress_file url etg segments =
     (case files progress_file of
        None \<Rightarrow> Inl FileNotFoundError
      | Some txt \<Rightarrow>
          (case loads txt of
             None \<Rightarrow> Inl JSONDecodeError
           | Some progress \<Rightarrow>
               if \<not> truthy etg then Inr segments
               else
                 (case subscript progress ''url'' of
                    Inl e \<Rightarrow> Inl e
                  | Inr u \<Rightarrow>
                      if \<not> eq_str u url then Inr segments
                      else
                        (case subscript progress ''etag'' of
                           Inl e \<Rightarrow> Inl e
                         | Inr t \<Rightarrow>
                             if \<not> eq_etag t etg then Inr segments
                             else subscript progress ''segments''))))"

text \<open>Lines 60--65: \<open>except Exception: pass\<close> keeps the value \<open>segments\<close> had.\<close>

definition resolve_segments ::
  "(string \<Rightarrow> json option) \<Rightarrow> fs \<Rightarrow> string \<Rightarrow> string \<Rightarrow> etag \<Rightarrow> json \<Rightarrow> json" where
  "resolve_segments loads files progress_file url etg segments =
     (case read_progress loads files progress_file url etg segments of
        Inl e \<Rightarrow> segments
      | Inr s \<Rightarrow> s)"

text \<open>Line 69: the dict handed to \<open>json.dumps\<close>.\<close>

definition progress_record :: "string \<Rightarrow> etag \<Rightarrow> json \<Rightarrow> json" where
  "progress_record url etg segments =
     JObj [(''url'', JStr url), (''etag'', etag_json etg), (''segments'', segments)]"

text \<open>
  Lines 75--76: \<open>size / segments\<close> and \<open>range(segments)\<close> decide what the resolved value
  may be: an int (a bool is an int), or an exception.  The result is the count and the
  partition size.
\<close>

fun partition_size :: "int \<Rightarrow> json \<Rightarrow> error + (int \<times> rat)" where
  "partition_size sz (JInt n) =
     (case int_truediv sz n of Inl e \<Rightarrow> Inl e | Inr p \<Rightarrow> Inr (n, p))"
| "partition_size sz (JBool b) =
     (case int_truediv sz (if b then 1 else 0) of
        Inl e \<Rightarrow> Inl e
      | Inr p \<Rightarrow> Inr (if b then 1 else 0, p))"
| "partition_size sz (JFloat r) =
     (case fl (of_int sz) of
        None \<Rightarrow> Inl OverflowError
      | Some s \<Rightarrow> if r = 0 then Inl ZeroDivisionError else Inl TypeError)"
| "partition_size sz _ = Inl TypeError"

text \<open>Lines 77--89: one pass of the loop body, the item stored under \<open>segment\<close>.\<close>

definition segment_entry :: "string \<Rightarrow> rat \<Rightarrow> int \<Rightarrow> int \<Rightarrow> error + segment" where
  "segment_entry file_path psize segments seg =
     (case int_float_mul psize seg of
        Inl e \<Rightarrow> Inl e
      | Inr start \<Rightarrow>
          (case int_float_mul psize (seg + 1) of
             Inl e \<Rightarrow> Inl e
           | Inr end0 \<Rightarrow>
               Inr \<lparr> seg_start = start,
                     seg_end = (if seg \<noteq> segments - 1 then end0 - 1 else end0),
                     segment_size = end0 - start,
                     segment_path = file_path @ ''.'' @ str_int seg \<rparr>))"

text \<open>Line 76: the loop over \<open>range(segments)\<close>, appending to the items collected so far.\<close>

fun segment_loop ::
  "string \<Rightarrow> rat \<Rightarrow> int \<Rightarrow> int list \<Rightarrow> (int \<times> segment) list \<Rightarrow> error + (int \<times> segment) list" where
  "segment_loop file_path psize segments [] dic = Inr dic"
| "segment_loop file_path psize segments (seg # rest) dic =
     (case segment_entry file_path psize segments seg of
        Inl e \<Rightarrow> Inl e
      | Inr entry \<Rightarrow> segment_loop file_path psize segments rest (dic @ [(seg, entry)]))"

text \<open>
  The whole function.  The result pairs the file system it leaves behind with either the
  exception that escaped or the table; the sidecar is written (line 67) before anything
  after it can raise.  \<open>dumps\<close> stands for \<open>json.dumps(_, indent=4)\<close>.
\<close>

definition create_segment_table ::
  "(string \<Rightarrow> json option) \<Rightarrow> (json \<Rightarrow> string) \<Rightarrow> fs \<Rightarrow>
   string \<Rightarrow> string \<Rightarrow> int \<Rightarrow> int \<Rightarrow> etag \<Rightarrow> fs \<times> (error + segment_table)" where
  "create_segment_table loads dumps files url file_path segments sz etg =
     (case clamp_segments segments sz of
        Inl e \<Rightarrow> (files, Inl e)
      | Inr clamped \<Rightarrow>
          let progress_file = file_path @ ''.json'';
              resolved = resolve_segments loads files progress_file url etg (JInt clamped);
              files' = files(progress_file \<mapsto> dumps (progress_record url etg resolved))
          in (case partition_size sz resolved of
                Inl e \<Rightarrow> (files', Inl e)
              | Inr (n, psize) \<Rightarrow>
                  (case segment_loop file_path psize n [0..n - 1] [] of
                     Inl e \<Rightarrow> (files', Inl e)
                   | Inr entries \<Rightarrow>
                       (files', Inr \<lparr> table_url = url, table_segments = resolved,
                                      table_entries = entries \<rparr>))))"

subsection \<open>\<open>combine_files\<close>\<close>

text \<open>
  Lines 102--107: the \<open>while True\<close> loop that reads \<open>src\<close> in pieces of \<open>CHUNKSIZE\<close>
  and writes each non-empty piece to \<open>dest\<close>; an empty read ends it.
\<close>

function copy_chunks :: "string \<Rightarrow> string \<Rightarrow> string" where
  "copy_chunks src dest =
     (let chunk = take CHUNKSIZE src
      in if chunk \<noteq> [] then copy_chunks (drop CHUNKSIZE src) (dest @ chunk) else dest)"
  by pat_completeness auto
termination
  by (relation "measure (\<lambda>(src, dest). length src)")
     (auto simp: CHUNKSIZE_def BLOCKSIZE_def BLOCKS_def)

declare copy_chunks.simps [simp del]

text \<open>
  Lines 99--108: the loop over \<open>range(segments)\<close>.  The destination is open for writing
  (it exists in \<open>files\<close>); opening a missing segment file raises.  The result is the file
  system left behind and the exception raised, if any.
\<close>

fun combine_loop :: "string \<Rightarrow> fs \<Rightarrow> int list \<Rightarrow> fs \<times> error option" where
  "combine_loop file_path files [] = (files, None)"
| "combine_loop file_path files (seg # rest) =
     (let segment_file = file_path @ ''.'' @ str_int seg
      in case files segment_file of
           None \<Rightarrow> (files, Some FileNotFoundError)
         | Some src \<Rightarrow>
             let dest = (case files file_path of None \<Rightarrow> [] | Some d \<Rightarrow> d);
                 files1 = files(file_path \<mapsto> copy_chunks src dest);
                 files2 = files1(segment_file := None)
             in combine_loop file_path files2 rest)"

definition combine_files :: "string \<Rightarrow> int \<Rightarrow> fs \<Rightarrow> fs \<times> error option" where
  "combine_files file_path segments files =
     (case combine_loop file_path (files(file_path \<mapsto> [])) [0..segments - 1] of
        (files1, Some e) \<Rightarrow> (files1, Some e)
      | (files1, None) \<Rightarrow>
          let progress_file = file_path @ ''.json''
          in (case files1 progress_file of
                None \<Rightarrow> (files1, Some FileNotFoundError)
              | Some c \<Rightarrow> (files1(progress_file := None), None)))"

subsection \<open>The workers\<close>

text \<open>The fields of \<open>Basicdown\<close> that belong to one worker; \<open>speed\<close> is \<open>None\<close> when the
  float is infinite.  The \<open>interrupt\<close> event is shared and lives in the \<open>world\<close>.\<close>

record worker =
  curr :: int
  completed :: bool
  wid :: int
  speed :: "rat option"

datatype mode = Wb | Ab

text \<open>The \<open>headers\<close> item of \<open>kwargs\<close> (\<open>None\<close>: no such item); every other keyword
  argument is handed to \<open>requests.get\<close> untouched.\<close>

type_synonym kwargs = "(string \<times> string) list option"

text \<open>What a worker does to its surroundings, in the order it does it.\<close>

datatype event =
    Unlink string
  | Open string mode
  | Get string kwargs
  | Sleep nat
  | LogError string

record world =
  files :: fs
  interrupt :: bool
  effects :: "event list"

text \<open>
  One pass of the loop over \<open>r.iter_content(MEGABYTE)\<close> as the surroundings make it: the
  chunk received, the clock difference \<open>end - start\<close>, and whether another thread has set
  the event by the time line 140 tests it.  A response is the passes the stream can
  deliver and how it ends after them: exhausted (\<open>None\<close>) or by raising.  An exception
  raised by \<open>requests.get\<close> itself is a response that raises before its first chunk.
\<close>

datatype step = Step (data: string) (elapsed: rat) (signalled: bool)

record response =
  steps :: "step list"
  failure :: "exn option"

definition Basicdown_init :: worker where
  "Basicdown_init = \<lparr> curr = 0, completed = False, wid = 0, speed = Some 0 \<rparr>"

text \<open>Line 138: \<open>to_mb(len(chunk)) / (end - start)\<close>, the new speed or the exception.\<close>

definition chunk_speed :: "string \<Rightarrow> rat \<Rightarrow> exn + rat option" where
  "chunk_speed chunk t =
     (case to_mb (int (length chunk)) of
        Inl e \<Rightarrow> Inl (Exn ''OverflowError'' ''integer division result too large for a float'')
      | Inr mb \<Rightarrow>
          if t = 0 then Inl (Exn ''ZeroDivisionError'' ''float division by zero'')
          else Inr (fl (mb / t)))"

text \<open>
  Lines 133--143.  The state is the worker, the content of the open file and the event;
  the result adds the exception that ended the loop, if one did.
\<close>

fun download_loop ::
  "worker \<Rightarrow> string \<Rightarrow> bool \<Rightarrow> step list \<Rightarrow> exn option \<Rightarrow> worker \<times> string \<times> bool \<times> exn option" where
  "download_loop w f intr [] fin = (w, f, intr, fin)"
| "download_loop w f intr (st # rest) fin =
     (let f1 = f @ data st;
          w1 = w\<lparr>curr := curr w + int (length (data st))\<rparr>
      in case chunk_speed (data st) (elapsed st) of
           Inl e \<Rightarrow> (w1, f1, intr, Some e)
         | Inr v \<Rightarrow>
             let w2 = w1\<lparr>speed := v\<rparr>;
                 intr1 = (intr \<or> signalled st)
             in if intr1 then (w2, f1, intr1, None)
                else download_loop w2 f1 intr1 rest fin)"

text \<open>Line 148: the message logged by the handler.\<close>

definition log_line :: "int \<Rightarrow> exn \<Rightarrow> string" where
  "log_line i e = ''(Thread: '' @ str_int i @ '') ['' @ cls e @ '': '' @ msg e @ '']''"

text \<open>
  Lines 131--143, the body of the \<open>try\<close>: \<open>open(path, mode)\<close> creates the file, empty
  for \<open>"wb"\<close> and with what it held for \<open>"ab"\<close>, then the loop runs on the response.
\<close>

definition download_body ::
  "worker \<Rightarrow> world \<Rightarrow> string \<Rightarrow> mode \<Rightarrow> response \<Rightarrow> worker \<times> string \<times> bool \<times> exn option" where
  "download_body w s path md resp =
     (let f0 = (case md of
                  Wb \<Rightarrow> []
                | Ab \<Rightarrow> (case files s path of None \<Rightarrow> [] | Some c \<Rightarrow> c))
      in download_loop w f0 (interrupt s) (steps resp) (failure resp))"

text \<open>
  \<open>Basicdown.download\<close>.  The request is sent once; the file keeps what was written
  however the loop ended; the handler (lines 145--148) sets the event, sleeps one second
  and logs, and nothing is raised to the caller.
\<close>

definition download ::
  "worker \<Rightarrow> world \<Rightarrow> string \<Rightarrow> string \<Rightarrow> mode \<Rightarrow> kwargs \<Rightarrow> response \<Rightarrow> worker \<times> world" where
  "download w s url path md kw resp =
     (case download_body w s path md resp of
        (w1, f1, intr1, ex) \<Rightarrow>
          let s1 = s\<lparr> files := (files s)(path \<mapsto> f1), interrupt := intr1,
                     effects := effects s @ [Open path md, Get url kw] \<rparr>
          in (case ex of
                None \<Rightarrow> (w1, s1)
              | Some e \<Rightarrow>
                  (w1, s1\<lparr> interrupt := True,
                           effects := effects s1 @ [Sleep 1, LogError (log_line (wid w1) e)] \<rparr>)))"

text \<open>\<open>Simpledown.worker\<close>, lines 168--170.\<close>

definition Simpledown_worker ::
  "string \<Rightarrow> string \<Rightarrow> kwargs \<Rightarrow> worker \<Rightarrow> world \<Rightarrow> response \<Rightarrow> worker \<times> world" where
  "Simpledown_worker url file_path kw w s resp =
     (case download w s url file_path Wb kw resp of
        (w1, s1) \<Rightarrow> (w1\<lparr>completed := True\<rparr>, s1))"

definition Multidown_init :: "int \<Rightarrow> worker" where
  "Multidown_init segment_id = Basicdown_init\<lparr>wid := segment_id\<rparr>"

text \<open>Lines 197--202: what an existing segment file does to the worker.\<close>

definition resume_state :: "string \<Rightarrow> int \<Rightarrow> worker \<Rightarrow> world \<Rightarrow> worker \<times> world" where
  "resume_state path sz w s =
     (case files s path of
        None \<Rightarrow> (w, s)
      | Some c \<Rightarrow>
          let downloaded_size = int (length c)
          in if downloaded_size > sz
             then (w, s\<lparr> files := (files s)(path := None),
                         effects := effects s @ [Unlink path] \<rparr>)
             else (w\<lparr>curr := downloaded_size\<rparr>, s))"

text \<open>Lines 206--207: the keyword arguments with the \<open>range\<close> header added.\<close>

definition range_kwargs :: "kwargs \<Rightarrow> int \<Rightarrow> int \<Rightarrow> kwargs" where
  "range_kwargs kw start stop =
     Some (AList.update ''range'' (''bytes='' @ str_int start @ ''-'' @ str_int stop)
             (case kw of None \<Rightarrow> [] | Some h \<Rightarrow> h))"

text \<open>\<open>Multidown.worker\<close>, lines 190--211.  A table without the worker's segment raises
  \<open>KeyError\<close> before anything is done.\<close>

definition Multidown_worker ::
  "segment_table \<Rightarrow> kwargs \<Rightarrow> worker \<Rightarrow> world \<Rightarrow> response \<Rightarrow> error + worker \<times> world" where
  "Multidown_worker segement_table kw w s resp =
     (case map_of (table_entries segement_table) (wid w) of
        None \<Rightarrow> Inl KeyError
      | Some seg \<Rightarrow>
          let url = table_url segement_table;
              sz = segment_size seg
          in (case resume_state (segment_path seg) sz w s of
                (w1, s1) \<Rightarrow>
                  (case (if curr w1 < sz
                         then download w1 s1 url (segment_path seg) Ab
                                (range_kwargs kw (seg_start seg + curr w1) (seg_end seg)) resp
                         else (w1, s1)) of
                     (w2, s2) \<Rightarrow>
                       Inr (if curr w2 = sz then w2\<lparr>completed := True\<rparr> else w2, s2))))"

subsection \<open>Notions used in the statements\<close>

text \<open>The HTTP requests among the effects of a run.\<close>

fun is_get :: "event \<Rightarrow> bool" where
  "is_get (Get url kw) = True"
| "is_get _ = False"

definition requests :: "event list \<Rightarrow> event list" where
  "requests es = filter is_get es"

text \<open>
  Following the specification's words on the resume check: the sidecar is usable when it
  is present, parses, carries a \<open>url\<close> equal to the requested one and an \<open>etag\<close> equal to
  the requested one, which must be truthy; its persisted \<open>segments\<close> value is then the
  plan to reuse.
\<close>

definition sidecar_plan ::
  "(string \<Rightarrow> json option) \<Rightarrow> fs \<Rightarrow> string \<Rightarrow> string \<Rightarrow> etag \<Rightarrow> json option" where
  "sidecar_plan loads fls progress_file url etg =
     (case fls progress_file of
        None \<Rightarrow> None
      | Some txt \<Rightarrow>
          (case loads txt of
             Some (JObj kvs) \<Rightarrow>
               (case (map_of kvs ''url'', map_of kvs ''etag'', map_of kvs ''segments'') of
                  (Some u, Some t, Some v) \<Rightarrow>
                    if eq_str u url \<and> truthy etg \<and> eq_etag t etg then Some v else None
                | _ \<Rightarrow> None)
           | _ \<Rightarrow> None))"

text \<open>
  A serialiser for the worked examples, which need some concrete \<open>dumps\<close>: members in
  order, strings quoted as they are.  The theorems hold for every \<open>dumps\<close>.
\<close>

fun json_atom :: "json \<Rightarrow> string" where
  "json_atom JNull = ''null''"
| "json_atom (JBool b) = (if b then ''true'' else ''false'')"
| "json_atom (JInt i) = str_int i"
| "json_atom (JStr t) = [CHR 0x22] @ t @ [CHR 0x22]"
| "json_atom _ = ''...''"

fun json_members :: "(string \<times> json) list \<Rightarrow> string" where
  "json_members [] = []"
| "json_members [(k, v)] = [CHR 0x22] @ k @ [CHR 0x22] @ '': '' @ json_atom v"
| "json_members ((k, v) # rest) =
     [CHR 0x22] @ k @ [CHR 0x22] @ '': '' @ json_atom v @ '', '' @ json_members rest"

fun json_text :: "json \<Rightarrow> string" where
  "json_text (JObj kvs) = ''{'' @ json_members kvs @ ''}''"
| "json_text v = json_atom v"

text \<open>The sum of the stored \<open>segment_size\<close> values of a table.\<close>

definition sizes_sum :: "segment_table \<Rightarrow> int" where
  "sizes_sum t = sum_list (map (\<lambda>(i, s). segment_size s) (table_entries t))"

text \<open>Each item's stored \<open>end\<close> plus one is the next item's \<open>start\<close>.\<close>

fun contiguous :: "(int \<times> segment) list \<Rightarrow> bool" where
  "contiguous (a # b # rest) = (seg_end (snd a) + 1 = seg_start (snd b) \<and> contiguous (b # rest))"
| "contiguous _ = True"

section \<open>Properties\<close>

subsection \<open>The float model: exponents, rounding, exact cases\<close>

lemma pow2_powi: "pow2 e = 2 powi e"
  by (simp add: pow2_def power_int_def inverse_eq_divide power_one_over)

lemma pow2_pos: "0 < pow2 e"
  by (simp add: pow2_powi)

lemma pow2_add: "pow2 (a + b) = pow2 a * pow2 b"
  by (simp add: pow2_powi power_int_add)

lemma pow2_less_iff: "pow2 a < pow2 b \<longleftrightarrow> a < b"
proof
  assume "a < b"
  then show "pow2 a < pow2 b"
    by (simp add: pow2_powi power_int_strict_increasing)
next
  assume h: "pow2 a < pow2 b"
  show "a < b"
  proof (rule ccontr)
    assume "\<not> a < b"
    then have "b \<le> a" by simp
    then have "pow2 b \<le> pow2 a"
      by (simp add: pow2_powi power_int_increasing)
    with h show False by simp
  qed
qed

lemma pow2_le_iff: "pow2 a \<le> pow2 b \<longleftrightarrow> a \<le> b"
  using pow2_less_iff [of b a] by (simp add: not_less [symmetric])

lemma pow2_nat: "pow2 (int n) = 2 ^ n"
  by (simp add: pow2_def)

lemma pow2_diff: "pow2 (a - b) = pow2 a / pow2 b"
  by (simp add: pow2_powi power_int_diff)


lemma floorlog2_pos: "0 < n \<Longrightarrow> 0 < floorlog 2 n"
  by (simp add: floorlog_def)

lemma floorlog2_rat_bounds:
  assumes "0 < n"
  shows "pow2 (int (floorlog 2 n) - 1) \<le> of_nat n" and "of_nat n < pow2 (int (floorlog 2 n))"
proof -
  let ?l = "floorlog 2 n"
  from floorlog_bounds [of n 2] assms
  have a1: "2 ^ (?l - 1) \<le> n" and a2: "n < 2 ^ ?l" by simp_all
  have l: "0 < ?l" using assms by (rule floorlog2_pos)
  have "(of_nat (2 ^ (?l - 1)) :: rat) \<le> of_nat n"
    using a1 by (simp only: of_nat_le_iff)
  then have "(2::rat) ^ (?l - 1) \<le> of_nat n" by simp
  moreover have "int ?l - 1 = int (?l - 1)" using l by simp
  ultimately show "pow2 (int ?l - 1) \<le> of_nat n" by (simp only: pow2_nat)
  have "(of_nat n :: rat) < of_nat (2 ^ ?l)"
    using a2 by (simp only: of_nat_less_iff)
  then show "of_nat n < pow2 (int ?l)" by (simp add: pow2_nat)
qed

lemma ilog2_guess:
  assumes "0 < x" and q: "quotient_of x = (a, b)"
  defines "k \<equiv> int (floorlog 2 (nat a)) - int (floorlog 2 (nat b))"
  shows "pow2 (k - 1) < x" and "x < pow2 (k + 1)"
proof -
  have b: "0 < b" using q by (rule quotient_of_denom_pos)
  have x: "x = of_int a / of_int b" using q by (rule quotient_of_div)
  have a: "0 < a" using \<open>0 < x\<close> b x by (simp add: zero_less_divide_iff)
  define la where "la = int (floorlog 2 (nat a))"
  define lb where "lb = int (floorlog 2 (nat b))"
  have k: "k = la - lb" by (simp add: k_def la_def lb_def)
  have na: "rat_of_nat (nat a) = of_int a" using a by simp
  have nb: "rat_of_nat (nat b) = of_int b" using b by simp
  have ra1: "pow2 (la - 1) \<le> of_int a" and ra2: "of_int a < pow2 la"
    using floorlog2_rat_bounds [of "nat a"] a unfolding na la_def by simp_all
  have rb1: "pow2 (lb - 1) \<le> of_int b" and rb2: "of_int b < pow2 lb"
    using floorlog2_rat_bounds [of "nat b"] b unfolding nb lb_def by simp_all
  have bpos: "(0::rat) < of_int b" using b by simp
  have e1: "pow2 (k - 1) * pow2 lb = pow2 (la - 1)"
    unfolding pow2_add [symmetric] k by (rule arg_cong [where f = pow2]) simp
  have e2: "pow2 (k + 1) * pow2 (lb - 1) = pow2 la"
    unfolding pow2_add [symmetric] k by (rule arg_cong [where f = pow2]) simp
  have "pow2 (k - 1) * of_int b < pow2 (k - 1) * pow2 lb"
    using rb2 pow2_pos [of "k - 1"] by (rule mult_strict_left_mono)
  also have "\<dots> = pow2 (la - 1)" by (rule e1)
  also have "\<dots> \<le> of_int a" by (rule ra1)
  finally have "pow2 (k - 1) * of_int b < of_int a" .
  then show "pow2 (k - 1) < x"
    unfolding x using bpos by (simp only: pos_less_divide_eq)
  have "of_int a < pow2 la" by (rule ra2)
  also have "pow2 la = pow2 (k + 1) * pow2 (lb - 1)" by (rule e2 [symmetric])
  also have "\<dots> \<le> pow2 (k + 1) * of_int b"
    using rb1 less_imp_le [OF pow2_pos [of "k + 1"]] by (rule mult_left_mono)
  finally have "of_int a < pow2 (k + 1) * of_int b" .
  then show "x < pow2 (k + 1)"
    unfolding x using bpos by (simp only: pos_divide_less_eq)
qed

lemma ilog2_bounds:
  assumes "0 < x"
  shows "pow2 (ilog2 x) \<le> x \<and> x < pow2 (ilog2 x + 1)"
proof -
  obtain a b where q: "quotient_of x = (a, b)" by (cases "quotient_of x")
  define k where "k = int (floorlog 2 (nat a)) - int (floorlog 2 (nat b))"
  have g1: "pow2 (k - 1) < x" and g2: "x < pow2 (k + 1)"
    using ilog2_guess [OF assms q] by (simp_all only: k_def)
  have i: "ilog2 x = (if pow2 k \<le> x then k else k - 1)"
    by (simp only: ilog2_def q k_def Let_def prod.case)
  show ?thesis
  proof (cases "pow2 k \<le> x")
    case True
    then show ?thesis using g2 by (simp add: i)
  next
    case False
    then show ?thesis using g1 by (simp add: i less_imp_le)
  qed
qed

lemma ilog2_unique:
  assumes "0 < x" "pow2 k \<le> x" "x < pow2 (k + 1)"
  shows "ilog2 x = k"
proof -
  from ilog2_bounds [OF assms(1)]
  have l: "pow2 (ilog2 x) \<le> x" and u: "x < pow2 (ilog2 x + 1)" by simp_all
  have "pow2 k < pow2 (ilog2 x + 1)" using assms(2) u by simp
  then have 1: "k < ilog2 x + 1" by (simp only: pow2_less_iff)
  have "pow2 (ilog2 x) < pow2 (k + 1)" using l assms(3) by simp
  then have 2: "ilog2 x < k + 1" by (simp only: pow2_less_iff)
  from 1 2 show ?thesis by simp
qed

lemma round_half_even_of_int: "round_half_even (of_int m) = m"
  by (simp add: round_half_even_def)

lemma round_half_even_le:
  assumes "x \<le> of_int n"
  shows "round_half_even x \<le> n"
proof (cases "x = of_int n")
  case True
  then show ?thesis by (simp add: round_half_even_of_int)
next
  case False
  with assms have "x < of_int n" by simp
  then have "\<lfloor>x\<rfloor> < n" by (simp add: floor_less_iff)
  then show ?thesis by (simp add: round_half_even_def Let_def)
qed

lemma round_half_even_nonneg: "0 \<le> x \<Longrightarrow> 0 \<le> round_half_even x"
  by (simp add: round_half_even_def Let_def)

lemma round_half_even_divide:
  assumes "0 < b"
  shows "round_half_even (of_int a / of_int b) =
     (if 2 * (a mod b) < b then a div b
      else if b < 2 * (a mod b) then a div b + 1
      else if even (a div b) then a div b else a div b + 1)"
proof -
  have f: "\<lfloor>of_int a / of_int b :: rat\<rfloor> = a div b"
    by (rule floor_divide_of_int_eq)
  have bp: "(0::rat) < of_int b" using assms by simp
  have "(of_int a :: rat) = of_int (a div b * b + a mod b)" by simp
  also have "\<dots> = of_int (a div b) * of_int b + of_int (a mod b)" by (simp only: of_int_add of_int_mult)
  finally have "(of_int a / of_int b :: rat) = of_int (a div b) + of_int (a mod b) / of_int b"
    using bp by (simp add: add_divide_distrib)
  then have r: "(of_int a / of_int b :: rat) - of_int (a div b) = of_int (a mod b) / of_int b"
    by simp
  have c1: "(of_int (a mod b) / of_int b :: rat) < 1 / 2 \<longleftrightarrow> 2 * (a mod b) < b"
  proof -
    have "(of_int (a mod b) / of_int b :: rat) < 1 / 2 \<longleftrightarrow> (of_int (2 * (a mod b)) :: rat) < of_int b"
      using bp by (simp add: pos_divide_less_eq mult.commute)
    then show ?thesis by (simp only: of_int_less_iff)
  qed
  have c2: "1 / 2 < (of_int (a mod b) / of_int b :: rat) \<longleftrightarrow> b < 2 * (a mod b)"
  proof -
    have "1 / 2 < (of_int (a mod b) / of_int b :: rat) \<longleftrightarrow> (of_int b :: rat) < of_int (2 * (a mod b))"
      using bp by (simp add: pos_less_divide_eq mult.commute)
    then show ?thesis by (simp only: of_int_less_iff)
  qed
  show ?thesis
    unfolding round_half_even_def Let_def f r c1 c2 by (rule refl)
qed

lemma round_half_even_numeral_divide:
  "round_half_even (numeral a / numeral b) =
     (if 2 * (numeral a mod numeral b) < (numeral b :: int) then numeral a div numeral b
      else if numeral b < 2 * (numeral a mod numeral b :: int) then numeral a div numeral b + 1
      else if even (numeral a div numeral b :: int) then numeral a div numeral b
      else numeral a div numeral b + 1)"
  using round_half_even_divide [of "numeral b" "numeral a"] by simp

lemma floor_rat_numeral_divide:
  "\<lfloor>numeral a / numeral b :: rat\<rfloor> = numeral a div numeral b"
  using floor_divide_of_int_eq [of "numeral a" "numeral b", where ?'a = rat] by simp

lemma round_half_even_numeral: "round_half_even (numeral a) = numeral a"
  using round_half_even_of_int [of "numeral a"] by simp

lemma fl_pos_eq:
  assumes x: "0 < x" and lo: "pow2 k \<le> x" and hi: "x < pow2 (k + 1)"
    and k1: "- 1022 \<le> k" and k2: "k \<le> 1022"
    and m: "round_half_even (x / pow2 (k - 52)) = m"
  shows "fl x = Some (of_int m * pow2 (k - 52))"
proof -
  have l: "ilog2 x = k" using x lo hi by (rule ilog2_unique)
  have "x / pow2 (k - 52) \<le> pow2 53"
  proof -
    have "pow2 (k + 1) = pow2 53 * pow2 (k - 52)"
      unfolding pow2_add [symmetric] by (rule arg_cong [where f = pow2]) simp
    with hi have "x < pow2 53 * pow2 (k - 52)" by simp
    then show ?thesis using pow2_pos [of "k - 52"] by (simp add: pos_divide_le_eq less_imp_le)
  qed
  moreover have "pow2 53 = of_int (2 ^ 53)" by (simp add: pow2_def)
  ultimately have "m \<le> 2 ^ 53" using m round_half_even_le by metis
  then have "(of_int m :: rat) \<le> of_int (2 ^ 53)" by (simp only: of_int_le_iff)
  then have "(of_int m :: rat) \<le> pow2 53" by (simp add: pow2_def)
  then have "of_int m * pow2 (k - 52) \<le> pow2 53 * pow2 (k - 52)"
    using pow2_pos [of "k - 52"] by (simp add: mult_right_mono less_imp_le)
  also have "\<dots> = pow2 (k + 1)"
    unfolding pow2_add [symmetric] by (rule arg_cong [where f = pow2]) simp
  also have "\<dots> < pow2 1024" using k2 by (simp add: pow2_less_iff)
  finally have ov: "\<not> pow2 1024 \<le> of_int m * pow2 (k - 52)" by simp
  have mx: "max k (- 1022) = k" using k1 by simp
  have ax: "\<bar>x\<bar> = x" and sx: "sgn x = 1" and nz: "x \<noteq> 0" using x by simp_all
  show ?thesis
    unfolding fl_def Let_def ax sx l mx m using ov nz by simp
qed

lemma fl_exact_pos:
  assumes m0: "0 < m" and m1: "m < 2 ^ 53" and e1: "- 1074 \<le> e'" and e2: "e' \<le> 970"
  shows "fl (of_int m * pow2 e') = Some (of_int m * pow2 e')"
proof -
  let ?x = "of_int m * pow2 e' :: rat"
  have x: "0 < ?x" using m0 pow2_pos [of e'] by simp
  define L where "L = ilog2 ?x"
  have lo: "pow2 L \<le> ?x" and hi: "?x < pow2 (L + 1)"
    using ilog2_bounds [OF x] by (simp_all add: L_def)
  have "(1::rat) \<le> of_int m" using m0 by simp
  then have "1 * pow2 e' \<le> ?x" using pow2_pos [of e'] by (simp only: mult_right_mono less_imp_le)
  then have "pow2 e' < pow2 (L + 1)" using hi by simp
  then have eL: "e' \<le> L" by (simp add: pow2_less_iff)
  have "(of_int m :: rat) < of_int (2 ^ 53)" using m1 by (simp only: of_int_less_iff)
  then have "(of_int m :: rat) < pow2 53" by (simp add: pow2_def)
  then have xu: "?x < pow2 53 * pow2 e'"
    using pow2_pos [of e'] by (simp only: mult_strict_right_mono)
  then have "pow2 L < pow2 (53 + e')" using lo by (simp add: pow2_add)
  then have Le: "L \<le> e' + 52" by (simp add: pow2_less_iff)
  define e where "e = max L (- 1022) - 52"
  have ee: "e \<le> e'" using Le e1 by (simp add: e_def)
  define d where "d = nat (e' - e)"
  have pe: "pow2 e' = pow2 (int d) * pow2 e"
    unfolding pow2_add [symmetric] using ee by (simp add: d_def)
  then have q: "?x / pow2 e = of_int (m * 2 ^ d)"
    using pow2_pos [of e] by (simp add: pow2_nat)
  have r: "round_half_even (?x / pow2 e) = m * 2 ^ d"
    unfolding q by (rule round_half_even_of_int)
  have bk: "of_int (m * 2 ^ d) * pow2 e = ?x"
    by (simp add: pe pow2_nat)
  have "?x < pow2 (53 + e')" using xu by (simp add: pow2_add)
  also have "\<dots> < pow2 1024" using e2 by (simp add: pow2_less_iff)
  finally have ov: "\<not> pow2 1024 \<le> ?x" by simp
  have ax: "\<bar>?x\<bar> = ?x" using x by (rule abs_of_pos)
  have sx: "sgn ?x = 1" using x by (rule sgn_pos)
  have nz: "?x \<noteq> 0" using x by (metis less_irrefl)
  show ?thesis
    unfolding fl_def Let_def ax sx L_def [symmetric] e_def [symmetric] r bk using ov nz by simp
qed

lemma fl_neg: "fl (- x) = map_option uminus (fl x)"
  by (simp add: fl_def Let_def sgn_minus)

lemma fl_exact:
  assumes m1: "\<bar>m\<bar> < 2 ^ 53" and e1: "- 1074 \<le> e'" and e2: "e' \<le> 970"
  shows "fl (of_int m * pow2 e') = Some (of_int m * pow2 e')"
proof -
  consider "m = 0" | "0 < m" | "m < 0" by linarith
  then show ?thesis
  proof cases
    case 1
    then show ?thesis by (simp add: fl_def)
  next
    case 2
    then show ?thesis using m1 e1 e2 by (simp add: fl_exact_pos)
  next
    case 3
    then have "fl (of_int (- m) * pow2 e') = Some (of_int (- m) * pow2 e')"
      using m1 e1 e2 by (intro fl_exact_pos) simp_all
    then have "fl (- (of_int m * pow2 e')) = Some (- (of_int m * pow2 e'))" by simp
    then show ?thesis unfolding fl_neg by (cases "fl (of_int m * pow2 e')") simp_all
  qed
qed

lemma fl_of_int: "\<bar>m\<bar> < 2 ^ 53 \<Longrightarrow> fl (of_int m) = Some (of_int m)"
  using fl_exact [of m 0] by (simp add: pow2_def)

lemma to_mb_exact:
  assumes "\<bar>sz\<bar> < 2 ^ 53"
  shows "to_mb sz = Inr (of_int sz / 1048576)"
proof -
  have "fl (of_int sz * pow2 (- 20)) = Some (of_int sz * pow2 (- 20))"
    using assms by (intro fl_exact) simp_all
  moreover have "of_int sz * pow2 (- 20) = (of_int sz / 1048576 :: rat)"
    by (simp add: pow2_def)
  ultimately show ?thesis
    by (simp add: to_mb_def int_truediv_def MEGABYTE_def)
qed

lemma clamp_segments_small:
  assumes "\<bar>sz\<bar> < 2 ^ 53"
  shows "clamp_segments segments sz = Inr (if segments > 5 \<and> sz < 50 * MEGABYTE then 5 else segments)"
proof -
  have "(of_int sz / 1048576 :: rat) < 50 \<longleftrightarrow> sz < 52428800"
  proof -
    have "(of_int sz / 1048576 :: rat) < 50 \<longleftrightarrow> (of_int sz :: rat) < of_int 52428800"
      by (simp add: pos_divide_less_eq)
    then show ?thesis by (simp only: of_int_less_iff)
  qed
  then show ?thesis
    by (simp add: clamp_segments_def to_mb_exact [OF assms] MEGABYTE_def)
qed

subsection \<open>Evaluating the planner on concrete requests\<close>

lemma fl_zero: "fl 0 = Some 0"
  by (simp add: fl_def)

lemma fl_one: "fl 1 = Some 1"
  using fl_of_int [of 1] by simp

lemma fl_numeral: "(numeral n :: int) < 2 ^ 53 \<Longrightarrow> fl (numeral n) = Some (numeral n)"
  using fl_of_int [of "numeral n"] by simp

lemma int_of_float_numeral: "int_of_float (numeral n) = numeral n"
  by (simp add: int_of_float_def)

lemma int_of_float_zero: "int_of_float 0 = 0"
  by (simp add: int_of_float_def)

lemma int_of_float_numeral_divide:
  "int_of_float (numeral a / numeral b) = numeral a div numeral b"
  by (simp add: int_of_float_def floor_rat_numeral_divide)

lemma int_float_mul_zero: "int_float_mul x 0 = Inr 0"
  by (simp add: int_float_mul_def fl_zero int_of_float_zero)

lemma int_float_mul_numeral:
  assumes "(numeral k :: int) < 2 ^ 53" and "fl (x * numeral k) = Some y"
  shows "int_float_mul x (numeral k) = Inr (int_of_float y)"
  using assms by (simp add: int_float_mul_def fl_numeral)

lemma int_float_mul_one:
  assumes "fl x = Some y"
  shows "int_float_mul x 1 = Inr (int_of_float y)"
  using assms by (simp add: int_float_mul_def fl_one)

lemma upto_0_3: "[0..3] = [0, 1, 2, 3::int]"
  by (simp add: upto.simps)

lemma upto_0_10: "[0..10] = [0, 1, 2, 3, 4, 5, 6, 7, 8, 9, 10::int]"
  by (simp add: upto.simps)

lemma resolve_segments_falsy: "\<not> truthy etg \<Longrightarrow> resolve_segments loads fls pf url etg s = s"
  by (simp add: resolve_segments_def read_progress_def split: option.splits)

lemma plan_100_by_4:
  "segment_loop file_path 25 4 [0..4 - 1] [] =
     Inr [(0, \<lparr> seg_start = 0, seg_end = 24, segment_size = 25, segment_path = file_path @ ''.0'' \<rparr>),
          (1, \<lparr> seg_start = 25, seg_end = 49, segment_size = 25, segment_path = file_path @ ''.1'' \<rparr>),
          (2, \<lparr> seg_start = 50, seg_end = 74, segment_size = 25, segment_path = file_path @ ''.2'' \<rparr>),
          (3, \<lparr> seg_start = 75, seg_end = 100, segment_size = 25, segment_path = file_path @ ''.3'' \<rparr>)]"
  by (simp add: upto_0_3 segment_entry_def int_float_mul_def fl_zero fl_one fl_numeral
      int_of_float_numeral int_of_float_zero str_int_def str_nat.simps digit_char_def)

lemma partition_100_by_4: "partition_size 100 (JInt 4) = Inr (4, 25)"
proof -
  have "fl (of_int 25) = Some (of_int 25)" by (rule fl_of_int) simp
  then show ?thesis by (simp add: int_truediv_def)
qed

lemma create_segment_table_100_by_4:
  assumes "resolve_segments loads fls (file_path @ ''.json'') url etg (JInt 4) = JInt 4"
  shows "snd (create_segment_table loads dumps fls url file_path 4 100 etg) =
     Inr \<lparr> table_url = url, table_segments = JInt 4, table_entries =
         [(0, \<lparr> seg_start = 0, seg_end = 24, segment_size = 25, segment_path = file_path @ ''.0'' \<rparr>),
          (1, \<lparr> seg_start = 25, seg_end = 49, segment_size = 25, segment_path = file_path @ ''.1'' \<rparr>),
          (2, \<lparr> seg_start = 50, seg_end = 74, segment_size = 25, segment_path = file_path @ ''.2'' \<rparr>),
          (3, \<lparr> seg_start = 75, seg_end = 100, segment_size = 25, segment_path = file_path @ ''.3'' \<rparr>)] \<rparr>"
  using plan_100_by_4 [of file_path]
  by (simp add: create_segment_table_def clamp_segments_def assms partition_100_by_4 Let_def
      del: partition_size.simps)

lemma partition_failing: "partition_size 52428810 (JInt 11) = Inr (11, 5117727825413585 / 1073741824)"
proof -
  have "fl (52428810 / 11) = Some (of_int 5117727825413585 * pow2 (22 - 52))"
    by (rule fl_pos_eq) (simp_all add: pow2_def round_half_even_numeral_divide)
  then show ?thesis by (simp add: int_truediv_def pow2_def)
qed

lemma product_1: "int_float_mul (5117727825413585 / 1073741824) 1 = Inr 4766255"
proof -
  have "fl (5117727825413585 / 1073741824) = Some (of_int 5117727825413585 * pow2 (22 - 52))"
    by (rule fl_pos_eq) (simp_all add: pow2_def round_half_even_numeral_divide round_half_even_numeral)
  then show ?thesis
    by (simp add: int_float_mul_def fl_one fl_numeral pow2_def int_of_float_numeral_divide)
qed

lemma product_2: "int_float_mul (5117727825413585 / 1073741824) 2 = Inr 9532510"
proof -
  have "fl (5117727825413585 / 1073741824 * 2) = Some (of_int 5117727825413585 * pow2 (23 - 52))"
    by (rule fl_pos_eq) (simp_all add: pow2_def round_half_even_numeral_divide round_half_even_numeral)
  then show ?thesis
    by (simp add: int_float_mul_def fl_one fl_numeral pow2_def int_of_float_numeral_divide)
qed

lemma product_3: "int_float_mul (5117727825413585 / 1073741824) 3 = Inr 14298766"
proof -
  have "fl (5117727825413585 / 1073741824 * 3) = Some (of_int 7676591738120378 * pow2 (23 - 52))"
    by (rule fl_pos_eq) (simp_all add: pow2_def round_half_even_numeral_divide round_half_even_numeral)
  then show ?thesis
    by (simp add: int_float_mul_def fl_one fl_numeral pow2_def int_of_float_numeral_divide)
qed

lemma product_4: "int_float_mul (5117727825413585 / 1073741824) 4 = Inr 19065021"
proof -
  have "fl (5117727825413585 / 1073741824 * 4) = Some (of_int 5117727825413585 * pow2 (24 - 52))"
    by (rule fl_pos_eq) (simp_all add: pow2_def round_half_even_numeral_divide round_half_even_numeral)
  then show ?thesis
    by (simp add: int_float_mul_def fl_one fl_numeral pow2_def int_of_float_numeral_divide)
qed

lemma product_5: "int_float_mul (5117727825413585 / 1073741824) 5 = Inr 23831277"
proof -
  have "fl (5117727825413585 / 1073741824 * 5) = Some (of_int 6397159781766981 * pow2 (24 - 52))"
    by (rule fl_pos_eq) (simp_all add: pow2_def round_half_even_numeral_divide round_half_even_numeral)
  then show ?thesis
    by (simp add: int_float_mul_def fl_one fl_numeral pow2_def int_of_float_numeral_divide)
qed

lemma product_6: "int_float_mul (5117727825413585 / 1073741824) 6 = Inr 28597532"
proof -
  have "fl (5117727825413585 / 1073741824 * 6) = Some (of_int 7676591738120378 * pow2 (24 - 52))"
    by (rule fl_pos_eq) (simp_all add: pow2_def round_half_even_numeral_divide round_half_even_numeral)
  then show ?thesis
    by (simp add: int_float_mul_def fl_one fl_numeral pow2_def int_of_float_numeral_divide)
qed

lemma product_7: "int_float_mul (5117727825413585 / 1073741824) 7 = Inr 33363788"
proof -
  have "fl (5117727825413585 / 1073741824 * 7) = Some (of_int 8956023694473774 * pow2 (24 - 52))"
    by (rule fl_pos_eq) (simp_all add: pow2_def round_half_even_numeral_divide round_half_even_numeral)
  then show ?thesis
    by (simp add: int_float_mul_def fl_one fl_numeral pow2_def int_of_float_numeral_divide)
qed

lemma product_8: "int_float_mul (5117727825413585 / 1073741824) 8 = Inr 38130043"
proof -
  have "fl (5117727825413585 / 1073741824 * 8) = Some (of_int 5117727825413585 * pow2 (25 - 52))"
    by (rule fl_pos_eq) (simp_all add: pow2_def round_half_even_numeral_divide round_half_even_numeral)
  then show ?thesis
    by (simp add: int_float_mul_def fl_one fl_numeral pow2_def int_of_float_numeral_divide)
qed

lemma product_9: "int_float_mul (5117727825413585 / 1073741824) 9 = Inr 42896299"
proof -
  have "fl (5117727825413585 / 1073741824 * 9) = Some (of_int 5757443803590283 * pow2 (25 - 52))"
    by (rule fl_pos_eq) (simp_all add: pow2_def round_half_even_numeral_divide round_half_even_numeral)
  then show ?thesis
    by (simp add: int_float_mul_def fl_one fl_numeral pow2_def int_of_float_numeral_divide)
qed

lemma product_10: "int_float_mul (5117727825413585 / 1073741824) 10 = Inr 47662554"
proof -
  have "fl (5117727825413585 / 1073741824 * 10) = Some (of_int 6397159781766981 * pow2 (25 - 52))"
    by (rule fl_pos_eq) (simp_all add: pow2_def round_half_even_numeral_divide round_half_even_numeral)
  then show ?thesis
    by (simp add: int_float_mul_def fl_one fl_numeral pow2_def int_of_float_numeral_divide)
qed

lemma product_11: "int_float_mul (5117727825413585 / 1073741824) 11 = Inr 52428809"
proof -
  have "fl (5117727825413585 / 1073741824 * 11) = Some (of_int 7036875759943679 * pow2 (25 - 52))"
    by (rule fl_pos_eq) (simp_all add: pow2_def round_half_even_numeral_divide round_half_even_numeral)
  then show ?thesis
    by (simp add: int_float_mul_def fl_one fl_numeral pow2_def int_of_float_numeral_divide)
qed

lemma plan_failing:
  "segment_loop file_path (5117727825413585 / 1073741824) 11 [0..11 - 1] [] =
     Inr [(0, \<lparr> seg_start = 0, seg_end = 4766254, segment_size = 4766255, segment_path = file_path @ ''.0'' \<rparr>),
          (1, \<lparr> seg_start = 4766255, seg_end = 9532509, segment_size = 4766255, segment_path = file_path @ ''.1'' \<rparr>),
          (2, \<lparr> seg_start = 9532510, seg_end = 14298765, segment_size = 4766256, segment_path = file_path @ ''.2'' \<rparr>),
          (3, \<lparr> seg_start = 14298766, seg_end = 19065020, segment_size = 4766255, segment_path = file_path @ ''.3'' \<rparr>),
          (4, \<lparr> seg_start = 19065021, seg_end = 23831276, segment_size = 4766256, segment_path = file_path @ ''.4'' \<rparr>),
          (5, \<lparr> seg_start = 23831277, seg_end = 28597531, segment_size = 4766255, segment_path = file_path @ ''.5'' \<rparr>),
          (6, \<lparr> seg_start = 28597532, seg_end = 33363787, segment_size = 4766256, segment_path = file_path @ ''.6'' \<rparr>),
          (7, \<lparr> seg_start = 33363788, seg_end = 38130042, segment_size = 4766255, segment_path = file_path @ ''.7'' \<rparr>),
          (8, \<lparr> seg_start = 38130043, seg_end = 42896298, segment_size = 4766256, segment_path = file_path @ ''.8'' \<rparr>),
          (9, \<lparr> seg_start = 42896299, seg_end = 47662553, segment_size = 4766255, segment_path = file_path @ ''.9'' \<rparr>),
          (10, \<lparr> seg_start = 47662554, seg_end = 52428809, segment_size = 4766255, segment_path = file_path @ ''.10'' \<rparr>)]"
  by (simp add: upto_0_10 segment_entry_def int_float_mul_zero product_1 product_2 product_3 product_4 product_5 product_6 product_7 product_8 product_9 product_10 product_11
      str_int_def str_nat.simps digit_char_def)

lemma clamp_segments_4: "clamp_segments 4 100 = Inr 4"
  by (simp add: clamp_segments_def)

lemma clamp_segments_failing: "clamp_segments 11 52428810 = Inr 11"
  by (simp add: clamp_segments_small MEGABYTE_def)

lemma create_segment_table_failing:
  "snd (create_segment_table loads dumps fls url file_path 11 52428810 (EBool False)) =
     Inr \<lparr> table_url = url, table_segments = JInt 11, table_entries =
         [(0, \<lparr> seg_start = 0, seg_end = 4766254, segment_size = 4766255, segment_path = file_path @ ''.0'' \<rparr>),
          (1, \<lparr> seg_start = 4766255, seg_end = 9532509, segment_size = 4766255, segment_path = file_path @ ''.1'' \<rparr>),
          (2, \<lparr> seg_start = 9532510, seg_end = 14298765, segment_size = 4766256, segment_path = file_path @ ''.2'' \<rparr>),
          (3, \<lparr> seg_start = 14298766, seg_end = 19065020, segment_size = 4766255, segment_path = file_path @ ''.3'' \<rparr>),
          (4, \<lparr> seg_start = 19065021, seg_end = 23831276, segment_size = 4766256, segment_path = file_path @ ''.4'' \<rparr>),
          (5, \<lparr> seg_start = 23831277, seg_end = 28597531, segment_size = 4766255, segment_path = file_path @ ''.5'' \<rparr>),
          (6, \<lparr> seg_start = 28597532, seg_end = 33363787, segment_size = 4766256, segment_path = file_path @ ''.6'' \<rparr>),
          (7, \<lparr> seg_start = 33363788, seg_end = 38130042, segment_size = 4766255, segment_path = file_path @ ''.7'' \<rparr>),
          (8, \<lparr> seg_start = 38130043, seg_end = 42896298, segment_size = 4766256, segment_path = file_path @ ''.8'' \<rparr>),
          (9, \<lparr> seg_start = 42896299, seg_end = 47662553, segment_size = 4766255, segment_path = file_path @ ''.9'' \<rparr>),
          (10, \<lparr> seg_start = 47662554, seg_end = 52428809, segment_size = 4766255, segment_path = file_path @ ''.10'' \<rparr>)] \<rparr>"
  using plan_failing [of file_path]
  by (simp add: create_segment_table_def clamp_segments_failing resolve_segments_falsy
      partition_failing Let_def del: partition_size.simps)

subsection \<open>C1: the sizes of a plan do not always add up to the total size\<close>

text \<open>
  What holds of every table that is returned, whatever the rounding: the items are
  numbered \<open>0..n-1\<close> in order, each stored \<open>end\<close> plus one is the next \<open>start\<close>, the first
  \<open>start\<close> is 0, and the sizes add up to the stored \<open>end\<close> of the last segment, which is
  \<open>int(partition_size * n)\<close>.
\<close>

lemma segment_entry_Inr:
  assumes "segment_entry fp p n k = Inr e"
  shows "\<exists>a b. int_float_mul p k = Inr a \<and> int_float_mul p (k + 1) = Inr b \<and>
     seg_start e = a \<and> seg_end e = (if k \<noteq> n - 1 then b - 1 else b) \<and> segment_size e = b - a \<and>
     segment_path e = fp @ ''.'' @ str_int k"
  using assms by (auto simp: segment_entry_def split: sum.splits)

lemma segment_loop_Inr:
  "segment_loop fp p n ks acc = Inr es \<Longrightarrow>
     \<exists>es'. es = acc @ es' \<and>
       list_all2 (\<lambda>k e. fst e = k \<and> segment_entry fp p n k = Inr (snd e)) ks es'"
proof (induction ks arbitrary: acc)
  case Nil
  then show ?case by simp
next
  case (Cons k ks)
  then obtain e where e: "segment_entry fp p n k = Inr e"
    and r: "segment_loop fp p n ks (acc @ [(k, e)]) = Inr es"
    by (auto split: sum.splits)
  from Cons.IH [OF r] obtain es' where
    "es = (acc @ [(k, e)]) @ es'"
    "list_all2 (\<lambda>k e. fst e = k \<and> segment_entry fp p n k = Inr (snd e)) ks es'"
    by blast
  with e show ?case
    by (intro exI [of _ "(k, e) # es'"]) simp
qed

lemma contiguous_nth:
  "(\<forall>m. Suc m < length es \<longrightarrow> seg_end (snd (es ! m)) + 1 = seg_start (snd (es ! Suc m))) \<Longrightarrow>
     contiguous es"
proof (induction es rule: contiguous.induct)
  case (1 a b rest)
  from "1.prems" [rule_format, of 0] have h: "seg_end (snd a) + 1 = seg_start (snd b)" by simp
  have "\<forall>m. Suc m < length (b # rest) \<longrightarrow>
      seg_end (snd ((b # rest) ! m)) + 1 = seg_start (snd ((b # rest) ! Suc m))"
  proof (intro allI impI)
    fix m assume "Suc m < length (b # rest)"
    with "1.prems" [rule_format, of "Suc m"]
    show "seg_end (snd ((b # rest) ! m)) + 1 = seg_start (snd ((b # rest) ! Suc m))" by simp
  qed
  from "1.IH" [OF this] h show ?case by simp
qed simp_all

lemma segment_loop_shape:
  assumes "segment_loop fp p n [0..n - 1] [] = Inr es"
  shows "map fst es = [0..n - 1] \<and> contiguous es \<and>
     (0 < n \<longrightarrow> seg_start (snd (hd es)) = 0 \<and>
        sum_list (map (\<lambda>(i, s). segment_size s) es) = seg_end (snd (last es)) \<and>
        int_float_mul p n = Inr (seg_end (snd (last es))))"
proof -
  define F where "F k = (case int_float_mul p k of Inr v \<Rightarrow> v | Inl e \<Rightarrow> 0)" for k
  from segment_loop_Inr [OF assms] have
    l: "list_all2 (\<lambda>k e. fst e = k \<and> segment_entry fp p n k = Inr (snd e)) [0..n - 1] es"
    by simp
  then have len: "length es = nat n" using list_all2_lengthD [OF l] by simp
  have nth: "fst (es ! m) = int m \<and> seg_start (snd (es ! m)) = F (int m) \<and>
      segment_size (snd (es ! m)) = F (int m + 1) - F (int m) \<and>
      seg_end (snd (es ! m)) = (if int m \<noteq> n - 1 then F (int m + 1) - 1 else F (int m + 1)) \<and>
      int_float_mul p (int m + 1) = Inr (F (int m + 1))"
    if m: "m < length es" for m
  proof -
    have k: "[0..n - 1] ! m = int m" using m len by (simp add: nth_upto)
    have "m < length [0..n - 1]" using m len by simp
    from list_all2_nthD [OF l this] have
      "fst (es ! m) = int m" "segment_entry fp p n (int m) = Inr (snd (es ! m))"
      by (simp_all add: k)
    with segment_entry_Inr [of fp p n "int m" "snd (es ! m)"] show ?thesis
      by (auto simp: F_def)
  qed
  have fst: "map fst es = [0..n - 1]"
  proof (rule nth_equalityI)
    show "length (map fst es) = length [0..n - 1]" using len by simp
  next
    fix m assume "m < length (map fst es)"
    then have m: "m < length es" by simp
    then show "map fst es ! m = [0..n - 1] ! m" using nth [OF m] len by (simp add: nth_upto)
  qed
  have cont: "contiguous es"
  proof (rule contiguous_nth, intro allI impI)
    fix m assume m: "Suc m < length es"
    then have "int m \<noteq> n - 1" using len by simp
    with nth [of m] nth [of "Suc m"] m
    show "seg_end (snd (es ! m)) + 1 = seg_start (snd (es ! Suc m))"
      by (simp add: add.commute)
  qed
  have pos: "seg_start (snd (hd es)) = 0 \<and>
        sum_list (map (\<lambda>(i, s). segment_size s) es) = seg_end (snd (last es)) \<and>
        int_float_mul p n = Inr (seg_end (snd (last es)))" if n: "0 < n"
  proof -
    have ne: "es \<noteq> []" using len n by auto
    have F0: "F 0 = 0" by (simp add: F_def int_float_mul_zero)
    have h: "seg_start (snd (hd es)) = 0"
      using nth [of 0] ne F0 by (simp add: hd_conv_nth)
    have lastm: "int (length es - 1) = n - 1" using len n by simp
    have lm: "length es - 1 < length es" using ne by simp
    from nth [OF lm] have e: "seg_end (snd (last es)) = F n"
      and fn: "int_float_mul p n = Inr (F n)"
      using ne lastm by (simp_all add: last_conv_nth)
    have "sum_list (map (\<lambda>(i, s). segment_size s) es) =
        (\<Sum>m<length es. segment_size (snd (es ! m)))"
      by (simp add: sum_list_sum_nth atLeast0LessThan case_prod_unfold)
    also have "\<dots> = (\<Sum>m<length es. F (int (Suc m)) - F (int m))"
      by (rule sum.cong) (simp_all add: nth add.commute)
    also have "\<dots> = F (int (length es)) - F (int 0)"
      by (rule sum_lessThan_telescope)
    also have "\<dots> = F n" using len n F0 by simp
    finally show ?thesis using h e fn by simp
  qed
  from fst cont pos show ?thesis by blast
qed

lemma create_segment_table_shape:
  assumes "snd (create_segment_table loads dumps fls url fp segments sz etg) = Inr t"
      and "table_segments t = JInt n"
  shows "map fst (table_entries t) = [0..n - 1] \<and> contiguous (table_entries t) \<and>
     (0 < n \<longrightarrow> seg_start (snd (hd (table_entries t))) = 0 \<and>
        sizes_sum t = seg_end (snd (last (table_entries t))))"
proof -
  from assms obtain p where "segment_loop fp p n [0..n - 1] [] = Inr (table_entries t)"
    by (auto simp: create_segment_table_def Let_def split: sum.splits prod.splits)
  from segment_loop_shape [OF this] show ?thesis by (simp add: sizes_sum_def)
qed

text \<open>
  C1 says that for every positive total size and segment count the stored
  \<open>segment_size\<close> values sum exactly to the total size.  \<open>create_segment_table\<close> computes
  the boundaries in floating point: \<open>partition_size = size / segments\<close> is rounded, and
  the last boundary is \<open>int(partition_size * segments)\<close>.  For a resource of 52428810
  bytes (50 MB and 10 bytes, so that the clamp leaves 11 segments alone) the quotient
  rounds down, the product \<open>partition_size * 11\<close> is \<open>52428809.99999999\<close>, and the table
  that is returned ends at 52428809: its segments are ordered and contiguous, but their
  sizes add up to one byte less than the resource.  The etag is \<open>False\<close>, so no sidecar
  is consulted, whatever the file system holds.
\<close>

theorem create_segment_table_sizes_fall_short:
  "(case snd (create_segment_table loads dumps fls url file_path 11 52428810 (EBool False)) of
      Inl e \<Rightarrow> False
    | Inr t \<Rightarrow>
        table_entries t =
         [(0, \<lparr> seg_start = 0, seg_end = 4766254, segment_size = 4766255, segment_path = file_path @ ''.0'' \<rparr>),
          (1, \<lparr> seg_start = 4766255, seg_end = 9532509, segment_size = 4766255, segment_path = file_path @ ''.1'' \<rparr>),
          (2, \<lparr> seg_start = 9532510, seg_end = 14298765, segment_size = 4766256, segment_path = file_path @ ''.2'' \<rparr>),
          (3, \<lparr> seg_start = 14298766, seg_end = 19065020, segment_size = 4766255, segment_path = file_path @ ''.3'' \<rparr>),
          (4, \<lparr> seg_start = 19065021, seg_end = 23831276, segment_size = 4766256, segment_path = file_path @ ''.4'' \<rparr>),
          (5, \<lparr> seg_start = 23831277, seg_end = 28597531, segment_size = 4766255, segment_path = file_path @ ''.5'' \<rparr>),
          (6, \<lparr> seg_start = 28597532, seg_end = 33363787, segment_size = 4766256, segment_path = file_path @ ''.6'' \<rparr>),
          (7, \<lparr> seg_start = 33363788, seg_end = 38130042, segment_size = 4766255, segment_path = file_path @ ''.7'' \<rparr>),
          (8, \<lparr> seg_start = 38130043, seg_end = 42896298, segment_size = 4766256, segment_path = file_path @ ''.8'' \<rparr>),
          (9, \<lparr> seg_start = 42896299, seg_end = 47662553, segment_size = 4766255, segment_path = file_path @ ''.9'' \<rparr>),
          (10, \<lparr> seg_start = 47662554, seg_end = 52428809, segment_size = 4766255, segment_path = file_path @ ''.10'' \<rparr>)] \<and>
        contiguous (table_entries t) \<and>
        sizes_sum t = 52428809)"
  by (simp add: create_segment_table_failing sizes_sum_def)

subsection \<open>C2: a 100-byte resource in 4 segments\<close>

text \<open>
  C2 (as amended): planning a 100-byte resource with 4 segments, when the sidecar leaves
  the count at 4 (there is none, it cannot be read or parsed, or it does not match),
  yields the ranges \<open>[0,24]\<close>, \<open>[25,49]\<close>, \<open>[50,74]\<close> and \<open>[75,100]\<close>, each with
  \<open>segment_size\<close> 25: the last segment keeps its computed end, which is the total size
  100 and not the last byte offset 99.
\<close>

theorem plan_100_bytes_4_segments:
  assumes "resolve_segments loads fls (file_path @ ''.json'') url etg (JInt 4) = JInt 4"
  shows "snd (create_segment_table loads dumps fls url file_path 4 100 etg) =
     Inr \<lparr> table_url = url, table_segments = JInt 4, table_entries =
         [(0, \<lparr> seg_start = 0, seg_end = 24, segment_size = 25, segment_path = file_path @ ''.0'' \<rparr>),
          (1, \<lparr> seg_start = 25, seg_end = 49, segment_size = 25, segment_path = file_path @ ''.1'' \<rparr>),
          (2, \<lparr> seg_start = 50, seg_end = 74, segment_size = 25, segment_path = file_path @ ''.2'' \<rparr>),
          (3, \<lparr> seg_start = 75, seg_end = 100, segment_size = 25, segment_path = file_path @ ''.3'' \<rparr>)] \<rparr>"
  using assms by (rule create_segment_table_100_by_4)

theorem plan_100_bytes_4_segments_witness:
  "resolve_segments (\<lambda>txt. None) Map.empty (''f'' @ ''.json'') ''u'' (EBool False) (JInt 4) = JInt 4 \<and>
   snd (create_segment_table (\<lambda>txt. None) (\<lambda>v. []) Map.empty ''u'' ''f'' 4 100 (EBool False)) =
     Inr \<lparr> table_url = ''u'', table_segments = JInt 4, table_entries =
         [(0, \<lparr> seg_start = 0, seg_end = 24, segment_size = 25, segment_path = ''f'' @ ''.0'' \<rparr>),
          (1, \<lparr> seg_start = 25, seg_end = 49, segment_size = 25, segment_path = ''f'' @ ''.1'' \<rparr>),
          (2, \<lparr> seg_start = 50, seg_end = 74, segment_size = 25, segment_path = ''f'' @ ''.2'' \<rparr>),
          (3, \<lparr> seg_start = 75, seg_end = 100, segment_size = 25, segment_path = ''f'' @ ''.3'' \<rparr>)] \<rparr>"
proof -
  have h: "resolve_segments (\<lambda>txt. None) Map.empty (''f'' @ ''.json'') ''u'' (EBool False) (JInt 4) = JInt 4"
    by (simp add: resolve_segments_def read_progress_def)
  show ?thesis
    using h plan_100_bytes_4_segments [OF h, of "\<lambda>v. []"] by simp
qed

text \<open>
  C2 as stated fails: with no sidecar at all, the fourth range of the 100-byte plan is
  \<open>[75,100]\<close>, not \<open>[75,99]\<close>.
\<close>

theorem plan_100_bytes_last_end_is_100:
  "snd (create_segment_table (\<lambda>txt. None) (\<lambda>v. []) Map.empty ''u'' ''f'' 4 100 (EBool False)) \<noteq>
     Inr \<lparr> table_url = ''u'', table_segments = JInt 4, table_entries =
         [(0, \<lparr> seg_start = 0, seg_end = 24, segment_size = 25, segment_path = ''f.0'' \<rparr>),
          (1, \<lparr> seg_start = 25, seg_end = 49, segment_size = 25, segment_path = ''f.1'' \<rparr>),
          (2, \<lparr> seg_start = 50, seg_end = 74, segment_size = 25, segment_path = ''f.2'' \<rparr>),
          (3, \<lparr> seg_start = 75, seg_end = 99, segment_size = 25, segment_path = ''f.3'' \<rparr>)] \<rparr> \<and>
   map (\<lambda>(i, s). (seg_start s, seg_end s))
     (case snd (create_segment_table (\<lambda>txt. None) (\<lambda>v. []) Map.empty ''u'' ''f'' 4 100 (EBool False)) of
        Inl e \<Rightarrow> [] | Inr t \<Rightarrow> table_entries t) =
     [(0, 24), (25, 49), (50, 74), (75, 100)]"
proof -
  have h: "resolve_segments (\<lambda>txt. None) Map.empty (''f'' @ ''.json'') ''u'' (EBool False) (JInt 4) = JInt 4"
    by (simp add: resolve_segments_def read_progress_def)
  show ?thesis
    using create_segment_table_100_by_4 [OF h, of "\<lambda>v. []"] by simp
qed

subsection \<open>The download loop and \<open>Basicdown.download\<close>\<close>

lemma download_loop_fields:
  "download_loop w f intr sts fin = (w1, f1, intr1, ex) \<Longrightarrow>
     completed w1 = completed w \<and> wid w1 = wid w"
proof (induction sts arbitrary: w f intr)
  case Nil
  then show ?case by simp
next
  case (Cons st rest)
  show ?case
  proof (cases "chunk_speed (data st) (elapsed st)")
    case (Inl e)
    with Cons.prems show ?thesis by (auto simp: Let_def)
  next
    case (Inr v)
    show ?thesis
    proof (cases "intr \<or> signalled st")
      case True
      with Cons.prems Inr show ?thesis by (auto simp: Let_def)
    next
      case False
      with Cons.prems Inr have
        "download_loop (w\<lparr>curr := curr w + int (length (data st)), speed := v\<rparr>) (f @ data st) False rest fin
           = (w1, f1, intr1, ex)"
        by (simp add: Let_def)
      from Cons.IH [OF this] show ?thesis by simp
    qed
  qed
qed

lemma download_loop_prefix:
  "download_loop w f intr sts fin = (w1, f1, intr1, ex) \<Longrightarrow>
     \<exists>m \<le> length sts.
        f1 = f @ concat (map data (take m sts)) \<and>
        curr w1 = curr w + int (length (concat (map data (take m sts)))) \<and>
        (intr \<longrightarrow> m \<le> 1) \<and>
        (\<forall>i < length sts. signalled (sts ! i) \<longrightarrow> m \<le> i + 1)"
proof (induction sts arbitrary: w f intr)
  case Nil
  then show ?case by simp
next
  case (Cons st rest)
  show ?case
  proof (cases "chunk_speed (data st) (elapsed st)")
    case (Inl e)
    with Cons.prems have r: "f1 = f @ data st" "curr w1 = curr w + int (length (data st))" "ex = Some e"
      by (auto simp: Let_def)
    show ?thesis
      by (rule exI [of _ 1]) (simp add: r)
  next
    case (Inr v)
    show ?thesis
    proof (cases "intr \<or> signalled st")
      case True
      with Cons.prems Inr have r: "f1 = f @ data st" "curr w1 = curr w + int (length (data st))" "intr1"
        by (auto simp: Let_def)
      show ?thesis
        by (rule exI [of _ 1]) (simp add: r)
    next
      case False
      with Cons.prems Inr have
        "download_loop (w\<lparr>curr := curr w + int (length (data st)), speed := v\<rparr>) (f @ data st) False rest fin
           = (w1, f1, intr1, ex)"
        by (simp add: Let_def)
      from Cons.IH [OF this] obtain m where m: "m \<le> length rest"
        "f1 = (f @ data st) @ concat (map data (take m rest))"
        "curr w1 = curr w + int (length (data st)) + int (length (concat (map data (take m rest))))"
        "\<forall>i < length rest. signalled (rest ! i) \<longrightarrow> m \<le> i + 1"
        by auto
      have "\<forall>i < length (st # rest). signalled ((st # rest) ! i) \<longrightarrow> Suc m \<le> i + 1"
      proof (intro allI impI)
        fix i assume i: "i < length (st # rest)" and s: "signalled ((st # rest) ! i)"
        show "Suc m \<le> i + 1"
        proof (cases i)
          case 0
          with s False show ?thesis by simp
        next
          case (Suc j)
          with i s m(4) show ?thesis by simp
        qed
      qed
      with m False show ?thesis
        by (intro exI [of _ "Suc m"]) simp
    qed
  qed
qed

lemma download_result:
  assumes "download_body w s path md resp = (w1, f1, intr1, ex)"
  shows "download w s url path md kw resp =
     (w1, \<lparr> files = (files s)(path \<mapsto> f1),
            interrupt = (intr1 \<or> ex \<noteq> None),
            effects = effects s @ [Open path md, Get url kw] @
              (case ex of None \<Rightarrow> [] | Some e \<Rightarrow> [Sleep 1, LogError (log_line (wid w) e)]) \<rparr>)"
proof -
  have "wid w1 = wid w"
    using assms download_loop_fields unfolding download_body_def Let_def by blast
  then show ?thesis
    using assms by (cases ex) (simp_all add: download_def Let_def)
qed

lemma download_keeps_flags:
  "completed (fst (download w s url path md kw resp)) = completed w \<and>
   wid (fst (download w s url path md kw resp)) = wid w"
proof -
  obtain w1 f1 intr1 ex where b: "download_body w s path md resp = (w1, f1, intr1, ex)"
    by (cases "download_body w s path md resp") auto
  then have "completed w1 = completed w \<and> wid w1 = wid w"
    using download_loop_fields unfolding download_body_def Let_def by blast
  then show ?thesis by (simp add: download_result [OF b])
qed

lemma download_appends:
  assumes "download w s url path Ab kw resp = (w', s')"
  shows "\<exists>received.
      files s' = (files s)(path \<mapsto> (case files s path of None \<Rightarrow> [] | Some c \<Rightarrow> c) @ received) \<and>
      curr w' = curr w + int (length received) \<and>
      take (length (effects s) + 2) (effects s') = effects s @ [Open path Ab, Get url kw] \<and>
      requests (effects s') = requests (effects s) @ [Get url kw]"
proof -
  obtain w1 f1 intr1 ex where b: "download_body w s path Ab resp = (w1, f1, intr1, ex)"
    by (cases "download_body w s path Ab resp") auto
  let ?f0 = "case files s path of None \<Rightarrow> [] | Some c \<Rightarrow> c"
  from b have "download_loop w ?f0 (interrupt s) (steps resp) (failure resp) = (w1, f1, intr1, ex)"
    by (simp add: download_body_def)
  from download_loop_prefix [OF this] obtain m where
    m: "f1 = ?f0 @ concat (map data (take m (steps resp)))"
       "curr w1 = curr w + int (length (concat (map data (take m (steps resp)))))"
    by blast
  from assms have w': "w' = w1" and s': "s' = \<lparr> files = (files s)(path \<mapsto> f1),
            interrupt = (intr1 \<or> ex \<noteq> None),
            effects = effects s @ [Open path Ab, Get url kw] @
              (case ex of None \<Rightarrow> [] | Some e \<Rightarrow> [Sleep 1, LogError (log_line (wid w) e)]) \<rparr>"
    by (simp_all add: download_result [OF b])
  show ?thesis
    by (rule exI [of _ "concat (map data (take m (steps resp)))"])
       (cases ex; simp add: w' s' m requests_def)
qed

subsection \<open>C10: a segment file of exactly the planned size\<close>

text \<open>
  C10: when the worker's segment file is already on disk with exactly the planned
  \<open>segment_size\<close>, \<open>Multidown.worker\<close> sends no request and touches nothing (the world,
  with its files and its list of effects, is returned as it was), sets \<open>curr\<close> to that
  size and marks the worker completed, whatever the transport would have answered.
\<close>

theorem segment_already_complete:
  assumes "map_of (table_entries t) (wid w) = Some seg"
      and "files s (segment_path seg) = Some c"
      and "int (length c) = segment_size seg"
  shows "Multidown_worker t kw w s resp = Inr (w\<lparr>curr := segment_size seg, completed := True\<rparr>, s)"
  using assms by (simp add: Multidown_worker_def resume_state_def Let_def)

theorem segment_already_complete_witness:
  "map_of (table_entries \<lparr> table_url = ''u'', table_segments = JInt 1, table_entries =
        [(0, \<lparr> seg_start = 0, seg_end = 3, segment_size = 3, segment_path = ''f.0'' \<rparr>)] \<rparr>)
      (wid (Multidown_init 0)) =
     Some \<lparr> seg_start = 0, seg_end = 3, segment_size = 3, segment_path = ''f.0'' \<rparr> \<and>
   files \<lparr> files = [''f.0'' \<mapsto> ''abc''], interrupt = False, effects = [] \<rparr> ''f.0'' = Some ''abc'' \<and>
   int (length ''abc'') = 3 \<and>
   Multidown_worker \<lparr> table_url = ''u'', table_segments = JInt 1, table_entries =
        [(0, \<lparr> seg_start = 0, seg_end = 3, segment_size = 3, segment_path = ''f.0'' \<rparr>)] \<rparr>
      None (Multidown_init 0) \<lparr> files = [''f.0'' \<mapsto> ''abc''], interrupt = False, effects = [] \<rparr>
      \<lparr> steps = [Step ''xyz'' 1 False], failure = None \<rparr> =
     Inr (\<lparr> curr = 3, completed = True, wid = 0, speed = Some 0 \<rparr>,
          \<lparr> files = [''f.0'' \<mapsto> ''abc''], interrupt = False, effects = [] \<rparr>)"
  using segment_already_complete [of
      "\<lparr> table_url = ''u'', table_segments = JInt 1, table_entries =
        [(0, \<lparr> seg_start = 0, seg_end = 3, segment_size = 3, segment_path = ''f.0'' \<rparr>)] \<rparr>"
      "Multidown_init 0"
      "\<lparr> seg_start = 0, seg_end = 3, segment_size = 3, segment_path = ''f.0'' \<rparr>"
      "\<lparr> files = [''f.0'' \<mapsto> ''abc''], interrupt = False, effects = [] \<rparr>"
      "''abc''" None "\<lparr> steps = [Step ''xyz'' 1 False], failure = None \<rparr>"]
  by (simp add: Multidown_init_def Basicdown_init_def)

subsection \<open>C4: what an existing segment file does to a starting worker\<close>

lemma range_kwargs_header:
  "map_of (case range_kwargs kw a b of None \<Rightarrow> [] | Some h \<Rightarrow> h) ''range'' =
     Some (''bytes='' @ str_int a @ ''-'' @ str_int b)"
  by (simp add: range_kwargs_def update_conv')

lemma Multidown_worker_oversize:
  assumes "map_of (table_entries t) (wid w) = Some seg"
      and "files s (segment_path seg) = Some c"
      and "segment_size seg < int (length c)"
  shows "\<exists>w' s'. Multidown_worker t kw w s resp = Inr (w', s') \<and>
      take (length (effects s) + 1) (effects s') = effects s @ [Unlink (segment_path seg)]"
proof (cases "curr w < segment_size seg")
  case True
  let ?s1 = "s\<lparr> files := (files s)(segment_path seg := None),
                  effects := effects s @ [Unlink (segment_path seg)] \<rparr>"
  obtain w2 s2 where d: "download w ?s1 (table_url t) (segment_path seg) Ab
      (range_kwargs kw (seg_start seg + curr w) (seg_end seg)) resp = (w2, s2)"
    by (cases "download w ?s1 (table_url t) (segment_path seg) Ab
      (range_kwargs kw (seg_start seg + curr w) (seg_end seg)) resp") auto
  from download_appends [OF d] have
    "take (length (effects ?s1) + 2) (effects s2) = effects ?s1 @
       [Open (segment_path seg) Ab, Get (table_url t) (range_kwargs kw (seg_start seg + curr w) (seg_end seg))]"
    by blast
  then have "take (length (effects s) + 1) (take (length (effects ?s1) + 2) (effects s2)) =
      effects s @ [Unlink (segment_path seg)]"
    by simp
  then have "take (length (effects s) + 1) (effects s2) = effects s @ [Unlink (segment_path seg)]"
    by (simp add: min_def)
  then show ?thesis
    using assms True d by (simp add: Multidown_worker_def resume_state_def Let_def)
next
  case False
  then show ?thesis
    using assms by (simp add: Multidown_worker_def resume_state_def Let_def)
qed

lemma Multidown_worker_partial:
  assumes "map_of (table_entries t) (wid w) = Some seg"
      and "files s (segment_path seg) = Some c"
      and "int (length c) < segment_size seg"
  shows "\<exists>w' s' received. Multidown_worker t kw w s resp = Inr (w', s') \<and>
      take (length (effects s) + 2) (effects s') =
        effects s @ [Open (segment_path seg) Ab,
          Get (table_url t) (range_kwargs kw (seg_start seg + int (length c)) (seg_end seg))] \<and>
      requests (effects s') = requests (effects s) @
        [Get (table_url t) (range_kwargs kw (seg_start seg + int (length c)) (seg_end seg))] \<and>
      files s' = (files s)(segment_path seg \<mapsto> c @ received) \<and>
      curr w' = int (length c) + int (length received)"
proof -
  let ?w1 = "w\<lparr>curr := int (length c)\<rparr>"
  let ?kw = "range_kwargs kw (seg_start seg + int (length c)) (seg_end seg)"
  obtain w2 s2 where d: "download ?w1 s (table_url t) (segment_path seg) Ab ?kw resp = (w2, s2)"
    by (cases "download ?w1 s (table_url t) (segment_path seg) Ab ?kw resp") auto
  from download_appends [OF d] obtain received where r:
    "files s2 = (files s)(segment_path seg \<mapsto> c @ received)"
    "curr w2 = int (length c) + int (length received)"
    "take (length (effects s) + 2) (effects s2) = effects s @ [Open (segment_path seg) Ab, Get (table_url t) ?kw]"
    "requests (effects s2) = requests (effects s) @ [Get (table_url t) ?kw]"
    using assms(2) by auto
  have "Multidown_worker t kw w s resp =
      Inr (if curr w2 = segment_size seg then w2\<lparr>completed := True\<rparr> else w2, s2)"
    using assms d by (simp add: Multidown_worker_def resume_state_def Let_def)
  with r show ?thesis by auto
qed

text \<open>
  C4: a freshly built \<open>Multidown\<close> worker whose segment file exists with \<open>k\<close> bytes.
  If \<open>k\<close> exceeds the planned \<open>segment_size\<close>, lines 197--200 delete the file (the
  first effect of the worker is the \<open>Unlink\<close>) and leave the byte count at its initial 0.
  Otherwise the byte count becomes \<open>k\<close>; and when \<open>k\<close> is smaller than the planned size
  the worker opens the segment file in append mode and sends exactly one request, whose
  \<open>range\<close> header is \<open>bytes=(start + k)-end\<close>; the file keeps its \<open>k\<close> bytes in front of
  what is received, and the final count is \<open>k\<close> plus the bytes received.
\<close>

theorem resume_detection:
  assumes "map_of (table_entries t) segment_id = Some seg"
      and "files s (segment_path seg) = Some c"
  shows
   "(segment_size seg < int (length c) \<longrightarrow>
       resume_state (segment_path seg) (segment_size seg) (Multidown_init segment_id) s =
         (Multidown_init segment_id,
          s\<lparr> files := (files s)(segment_path seg := None),
             effects := effects s @ [Unlink (segment_path seg)] \<rparr>) \<and>
       curr (Multidown_init segment_id) = 0 \<and>
       (\<exists>w' s'. Multidown_worker t kw (Multidown_init segment_id) s resp = Inr (w', s') \<and>
          take (length (effects s) + 1) (effects s') = effects s @ [Unlink (segment_path seg)])) \<and>
    (int (length c) \<le> segment_size seg \<longrightarrow>
       resume_state (segment_path seg) (segment_size seg) (Multidown_init segment_id) s =
         ((Multidown_init segment_id)\<lparr>curr := int (length c)\<rparr>, s)) \<and>
    (int (length c) < segment_size seg \<longrightarrow>
       (\<exists>w' s' received. Multidown_worker t kw (Multidown_init segment_id) s resp = Inr (w', s') \<and>
          take (length (effects s) + 2) (effects s') =
            effects s @ [Open (segment_path seg) Ab,
              Get (table_url t) (range_kwargs kw (seg_start seg + int (length c)) (seg_end seg))] \<and>
          requests (effects s') = requests (effects s) @
            [Get (table_url t) (range_kwargs kw (seg_start seg + int (length c)) (seg_end seg))] \<and>
          files s' = (files s)(segment_path seg \<mapsto> c @ received) \<and>
          curr w' = int (length c) + int (length received)) \<and>
       map_of (case range_kwargs kw (seg_start seg + int (length c)) (seg_end seg) of
                 None \<Rightarrow> [] | Some h \<Rightarrow> h) ''range'' =
         Some (''bytes='' @ str_int (seg_start seg + int (length c)) @ ''-'' @ str_int (seg_end seg)))"
proof -
  have i: "wid (Multidown_init segment_id) = segment_id"
    by (simp add: Multidown_init_def Basicdown_init_def)
  have a: "map_of (table_entries t) (wid (Multidown_init segment_id)) = Some seg"
    using assms(1) by (simp add: i)
  show ?thesis
    using assms(2) Multidown_worker_oversize [OF a assms(2), of kw resp]
      Multidown_worker_partial [OF a assms(2), of kw resp]
    by (simp add: resume_state_def Let_def range_kwargs_header)
       (simp add: Multidown_init_def Basicdown_init_def)
qed

theorem resume_detection_witness:
  "map_of (table_entries \<lparr> table_url = ''u'', table_segments = JInt 1, table_entries =
        [(0, \<lparr> seg_start = 0, seg_end = 10, segment_size = 10, segment_path = ''f.0'' \<rparr>)] \<rparr>) 0 = Some \<lparr> seg_start = 0, seg_end = 10, segment_size = 10, segment_path = ''f.0'' \<rparr> \<and>
   files \<lparr> files = [''f.0'' \<mapsto> ''abc''], interrupt = False, effects = [] \<rparr> (segment_path \<lparr> seg_start = 0, seg_end = 10, segment_size = 10, segment_path = ''f.0'' \<rparr>) = Some ''abc'' \<and>
   int (length ''abc'') < segment_size \<lparr> seg_start = 0, seg_end = 10, segment_size = 10, segment_path = ''f.0'' \<rparr> \<and>
   resume_state ''f.0'' 10 (Multidown_init 0) \<lparr> files = [''f.0'' \<mapsto> ''abc''], interrupt = False, effects = [] \<rparr> = ((Multidown_init 0)\<lparr>curr := 3\<rparr>, \<lparr> files = [''f.0'' \<mapsto> ''abc''], interrupt = False, effects = [] \<rparr>) \<and>
   (\<exists>w' s' received. Multidown_worker \<lparr> table_url = ''u'', table_segments = JInt 1, table_entries =
        [(0, \<lparr> seg_start = 0, seg_end = 10, segment_size = 10, segment_path = ''f.0'' \<rparr>)] \<rparr> None (Multidown_init 0) \<lparr> files = [''f.0'' \<mapsto> ''abc''], interrupt = False, effects = [] \<rparr> \<lparr> steps = [Step ''defg'' 1 False], failure = None \<rparr> = Inr (w', s') \<and>
      take 2 (effects s') = [Open ''f.0'' Ab, Get ''u'' (Some [(''range'', ''bytes=3-10'')])] \<and>
      files s' = [''f.0'' \<mapsto> ''abc'' @ received] \<and>
      curr w' = 3 + int (length received))"
proof -
  have h1: "map_of (table_entries \<lparr> table_url = ''u'', table_segments = JInt 1, table_entries =
        [(0, \<lparr> seg_start = 0, seg_end = 10, segment_size = 10, segment_path = ''f.0'' \<rparr>)] \<rparr>) 0 = Some \<lparr> seg_start = 0, seg_end = 10, segment_size = 10, segment_path = ''f.0'' \<rparr>" by simp
  have h2: "files \<lparr> files = [''f.0'' \<mapsto> ''abc''], interrupt = False, effects = [] \<rparr> (segment_path \<lparr> seg_start = 0, seg_end = 10, segment_size = 10, segment_path = ''f.0'' \<rparr>) = Some ''abc''" by simp
  note th = resume_detection [OF h1 h2, of None "\<lparr> steps = [Step ''defg'' 1 False], failure = None \<rparr>"]
  from th have r: "resume_state ''f.0'' 10 (Multidown_init 0) \<lparr> files = [''f.0'' \<mapsto> ''abc''], interrupt = False, effects = [] \<rparr> = ((Multidown_init 0)\<lparr>curr := 3\<rparr>, \<lparr> files = [''f.0'' \<mapsto> ''abc''], interrupt = False, effects = [] \<rparr>)"
    by simp
  from th obtain w' s' received where
    "Multidown_worker \<lparr> table_url = ''u'', table_segments = JInt 1, table_entries =
        [(0, \<lparr> seg_start = 0, seg_end = 10, segment_size = 10, segment_path = ''f.0'' \<rparr>)] \<rparr> None (Multidown_init 0) \<lparr> files = [''f.0'' \<mapsto> ''abc''], interrupt = False, effects = [] \<rparr> \<lparr> steps = [Step ''defg'' 1 False], failure = None \<rparr> = Inr (w', s')"
    "take (0 + 2) (effects s') = [Open ''f.0'' Ab, Get ''u'' (range_kwargs None (0 + 3) 10)]"
    "files s' = [''f.0'' \<mapsto> ''abc'' @ received]"
    "curr w' = 3 + int (length received)"
    by auto
  then have "\<exists>w' s' received. Multidown_worker \<lparr> table_url = ''u'', table_segments = JInt 1, table_entries =
        [(0, \<lparr> seg_start = 0, seg_end = 10, segment_size = 10, segment_path = ''f.0'' \<rparr>)] \<rparr> None (Multidown_init 0) \<lparr> files = [''f.0'' \<mapsto> ''abc''], interrupt = False, effects = [] \<rparr> \<lparr> steps = [Step ''defg'' 1 False], failure = None \<rparr> = Inr (w', s') \<and>
      take 2 (effects s') = [Open ''f.0'' Ab, Get ''u'' (Some [(''range'', ''bytes=3-10'')])] \<and>
      files s' = [''f.0'' \<mapsto> ''abc'' @ received] \<and>
      curr w' = 3 + int (length received)"
    by (intro exI [of _ w'] exI [of _ s'] exI [of _ received])
       (simp add: range_kwargs_def str_int_def str_nat.simps digit_char_def numeral_2_eq_2)
  with r show ?thesis by simp
qed

subsection \<open>C5: when a worker is marked completed\<close>

lemma chunk_speed_value:
  assumes "length d < 2 ^ 53" and "t \<noteq> 0"
  shows "chunk_speed d t = Inr (fl (of_int (int (length d)) / 1048576 / t))"
proof -
  have "int (length d) < 2 ^ 53"
    using assms(1) by (metis of_nat_less_iff of_nat_numeral of_nat_power)
  then have "\<bar>int (length d)\<bar> < 2 ^ 53" by simp
  from to_mb_exact [OF this] show ?thesis
    using assms(2) by (simp add: chunk_speed_def)
qed

lemma chunk_speed_ab: "chunk_speed ''ab'' 1 = Inr (Some (1 / 524288))"
proof -
  have "fl (of_int 2 * pow2 (- 20)) = Some (of_int 2 * pow2 (- 20))"
    by (rule fl_exact) simp_all
  then have "fl (2 / 1048576) = Some (1 / 524288)" by (simp add: pow2_def)
  then show ?thesis by (simp add: chunk_speed_value)
qed

lemma resume_state_flags:
  "resume_state p sz w s = (w1, s1) \<Longrightarrow> completed w1 = completed w \<and> wid w1 = wid w"
  by (auto simp: resume_state_def Let_def split: option.splits if_splits)

lemma Multidown_completed_iff:
  assumes "map_of (table_entries t) (wid w) = Some seg" and "\<not> completed w"
  shows "\<exists>w' s'. Multidown_worker t kw w s resp = Inr (w', s') \<and>
     (completed w' \<longleftrightarrow> curr w' = segment_size seg)"
proof -
  obtain w1 s1 where r: "resume_state (segment_path seg) (segment_size seg) w s = (w1, s1)"
    by (cases "resume_state (segment_path seg) (segment_size seg) w s") auto
  then have c1: "\<not> completed w1" using assms(2) resume_state_flags by blast
  obtain w2 s2 where d: "(if curr w1 < segment_size seg
      then download w1 s1 (table_url t) (segment_path seg) Ab
             (range_kwargs kw (seg_start seg + curr w1) (seg_end seg)) resp
      else (w1, s1)) = (w2, s2)"
    by (cases "(if curr w1 < segment_size seg
      then download w1 s1 (table_url t) (segment_path seg) Ab
             (range_kwargs kw (seg_start seg + curr w1) (seg_end seg)) resp
      else (w1, s1))") auto
  have c2: "\<not> completed w2"
  proof (cases "curr w1 < segment_size seg")
    case True
    with d have "w2 = fst (download w1 s1 (table_url t) (segment_path seg) Ab
             (range_kwargs kw (seg_start seg + curr w1) (seg_end seg)) resp)" by simp
    then show ?thesis using c1 download_keeps_flags by simp
  next
    case False
    with d c1 show ?thesis by simp
  qed
  have "Multidown_worker t kw w s resp =
      Inr (if curr w2 = segment_size seg then w2\<lparr>completed := True\<rparr> else w2, s2)"
    using assms(1) r d by (simp add: Multidown_worker_def Let_def)
  then show ?thesis using c2 by auto
qed

lemma Simpledown_completed:
  "completed (fst (Simpledown_worker url file_path kw w s resp))"
  by (simp add: Simpledown_worker_def split: prod.splits)

text \<open>
  C5 (as amended): a \<open>Multidown\<close> worker that starts not completed ends completed exactly
  when its byte count equals the planned \<open>segment_size\<close> at the end of \<open>worker\<close>, whichever
  way the download loop ended (stream exhausted, cancelled, or an exception caught) and
  also when no download was needed; a \<open>Simpledown\<close> worker is marked completed whenever
  its \<open>download\<close> call returns.  Neither worker looks at how the loop ended.
\<close>

theorem completion_marking:
  assumes "map_of (table_entries t) (wid w) = Some seg" and "\<not> completed w"
  shows "(\<exists>w' s'. Multidown_worker t kw w s resp = Inr (w', s') \<and>
            (completed w' \<longleftrightarrow> curr w' = segment_size seg)) \<and>
         completed (fst (Simpledown_worker url file_path kw0 w0 s0 resp0))"
  using Multidown_completed_iff [OF assms] Simpledown_completed by blast

theorem completion_marking_witness:
  "map_of (table_entries \<lparr> table_url = ''u'', table_segments = JInt 1, table_entries =
        [(0, \<lparr> seg_start = 0, seg_end = 2, segment_size = 2, segment_path = ''f.0'' \<rparr>)] \<rparr>) (wid (Multidown_init 0)) = Some \<lparr> seg_start = 0, seg_end = 2, segment_size = 2, segment_path = ''f.0'' \<rparr> \<and>
   \<not> completed (Multidown_init 0) \<and>
   (\<exists>w' s'. Multidown_worker \<lparr> table_url = ''u'', table_segments = JInt 1, table_entries =
        [(0, \<lparr> seg_start = 0, seg_end = 2, segment_size = 2, segment_path = ''f.0'' \<rparr>)] \<rparr> None (Multidown_init 0) \<lparr> files = Map.empty, interrupt = False, effects = [] \<rparr> \<lparr> steps = [Step ''ab'' 1 False], failure = None \<rparr> = Inr (w', s') \<and>
      (completed w' \<longleftrightarrow> curr w' = 2)) \<and>
   completed (fst (Simpledown_worker ''u'' ''f'' None Basicdown_init \<lparr> files = Map.empty, interrupt = False, effects = [] \<rparr> \<lparr> steps = [Step ''ab'' 1 False], failure = None \<rparr>))"
proof -
  have h1: "map_of (table_entries \<lparr> table_url = ''u'', table_segments = JInt 1, table_entries =
        [(0, \<lparr> seg_start = 0, seg_end = 2, segment_size = 2, segment_path = ''f.0'' \<rparr>)] \<rparr>) (wid (Multidown_init 0)) = Some \<lparr> seg_start = 0, seg_end = 2, segment_size = 2, segment_path = ''f.0'' \<rparr>"
    by (simp add: Multidown_init_def Basicdown_init_def)
  have h2: "\<not> completed (Multidown_init 0)"
    by (simp add: Multidown_init_def Basicdown_init_def)
  show ?thesis
    using h1 h2 completion_marking [OF h1 h2, of None "\<lparr> files = Map.empty, interrupt = False, effects = [] \<rparr>" "\<lparr> steps = [Step ''ab'' 1 False], failure = None \<rparr>" "''u''" "''f''" None Basicdown_init "\<lparr> files = Map.empty, interrupt = False, effects = [] \<rparr>" "\<lparr> steps = [Step ''ab'' 1 False], failure = None \<rparr>"]
    by simp
qed

text \<open>
  C5 as stated fails for the whole-file worker: the event is set by another thread
  while the first of two chunks is in flight, the loop stops after that chunk (the file
  holds \<open>ab\<close> only, the stream is not exhausted), and the worker is marked completed.
\<close>

theorem whole_file_completed_after_cancellation:
  "completed (fst (Simpledown_worker ''u'' ''f'' None Basicdown_init
      \<lparr> files = Map.empty, interrupt = False, effects = [] \<rparr>
      \<lparr> steps = [Step ''ab'' 1 True, Step ''cd'' 1 False], failure = None \<rparr>)) \<and>
   files (snd (Simpledown_worker ''u'' ''f'' None Basicdown_init
      \<lparr> files = Map.empty, interrupt = False, effects = [] \<rparr>
      \<lparr> steps = [Step ''ab'' 1 True, Step ''cd'' 1 False], failure = None \<rparr>)) ''f'' = Some ''ab'' \<and>
   interrupt (snd (Simpledown_worker ''u'' ''f'' None Basicdown_init
      \<lparr> files = Map.empty, interrupt = False, effects = [] \<rparr>
      \<lparr> steps = [Step ''ab'' 1 True, Step ''cd'' 1 False], failure = None \<rparr>))"
  by (simp add: Simpledown_worker_def download_def download_body_def chunk_speed_ab Let_def)

subsection \<open>C6: an exception during the chunked download\<close>

text \<open>
  An exception of the transport reaches the handler: when the event is not set, no chunk
  before it is cut short by a signal or by line 138, and the stream then raises \<open>e\<close>,
  the body ends with \<open>e\<close> after writing every chunk.
\<close>

lemma download_loop_reaches_failure:
  assumes "\<not> intr"
      and "\<forall>st \<in> set sts. \<not> signalled st \<and> elapsed st \<noteq> 0 \<and> length (data st) < 2 ^ 53"
  shows "\<exists>w1. download_loop w f intr sts fin = (w1, f @ concat (map data sts), False, fin)"
  using assms
proof (induction sts arbitrary: w f)
  case Nil
  then show ?case by simp
next
  case (Cons st rest)
  have c: "chunk_speed (data st) (elapsed st) =
      Inr (fl (of_int (int (length (data st))) / 1048576 / elapsed st))"
    using Cons.prems(2) by (intro chunk_speed_value) simp_all
  have r: "\<forall>st \<in> set rest. \<not> signalled st \<and> elapsed st \<noteq> 0 \<and> length (data st) < 2 ^ 53"
    using Cons.prems(2) by simp
  have s: "\<not> signalled st" using Cons.prems(2) by simp
  let ?w2 = "w\<lparr>curr := curr w + int (length (data st)),
                speed := fl (of_int (int (length (data st))) / 1048576 / elapsed st)\<rparr>"
  from Cons.IH [OF Cons.prems(1) r, of ?w2 "f @ data st"] obtain w1 where
    "download_loop ?w2 (f @ data st) intr rest fin =
       (w1, (f @ data st) @ concat (map data rest), False, fin)" by blast
  then have "download_loop w f intr (st # rest) fin =
       (w1, f @ concat (map data (st # rest)), False, fin)"
    using Cons.prems(1) s by (simp add: c Let_def)
  then show ?case by blast
qed

lemma transport_error_reaches_handler:
  assumes "\<not> interrupt s" and "failure resp = Some e"
      and "\<forall>st \<in> set (steps resp). \<not> signalled st \<and> elapsed st \<noteq> 0 \<and> length (data st) < 2 ^ 53"
  shows "\<exists>w1 f1. download_body w s path md resp = (w1, f1, False, Some e)"
proof -
  let ?f0 = "case md of Wb \<Rightarrow> [] | Ab \<Rightarrow> (case files s path of None \<Rightarrow> [] | Some c \<Rightarrow> c)"
  from download_loop_reaches_failure [OF assms(1) assms(3), of w ?f0 "Some e"] obtain w1 where
    "download_loop w ?f0 (interrupt s) (steps resp) (Some e) =
       (w1, ?f0 @ concat (map data (steps resp)), False, Some e)" by blast
  then have "download_body w s path md resp =
       (w1, ?f0 @ concat (map data (steps resp)), False, Some e)"
    using assms(2) by (simp add: download_body_def)
  then show ?thesis by blast
qed

text \<open>
  C6 (as amended): when the body of \<open>Basicdown.download\<close> ends by an exception (raised
  by the transport, or by line 138), \<open>download\<close> keeps what was written, sets the shared
  event, sleeps one second, logs \<open>(Thread: id) [class: message]\<close> and returns normally to
  the worker that called it: one request was sent and none follows, and \<open>download\<close>
  itself leaves \<open>completed\<close> and \<open>id\<close> as they were.  What the calling worker does to
  \<open>completed\<close> afterwards is its own rule (C5).
\<close>

theorem error_handling:
  assumes "download_body w s path md resp = (w1, f1, intr1, Some e)"
  shows "download w s url path md kw resp =
      (w1, \<lparr> files = (files s)(path \<mapsto> f1), interrupt = True,
             effects = effects s @ [Open path md, Get url kw, Sleep 1,
               LogError (''(Thread: '' @ str_int (wid w) @ '') ['' @ cls e @ '': '' @ msg e @ '']'')] \<rparr>) \<and>
     completed w1 = completed w \<and> wid w1 = wid w \<and>
     requests (effects (snd (download w s url path md kw resp))) = requests (effects s) @ [Get url kw]"
proof -
  have "completed w1 = completed w \<and> wid w1 = wid w"
    using assms download_loop_fields unfolding download_body_def Let_def by blast
  then show ?thesis
    by (simp add: download_result [OF assms] log_line_def requests_def)
qed

theorem error_handling_witness:
  "download_body (Multidown_init 3) \<lparr> files = Map.empty, interrupt = False, effects = [] \<rparr> ''f.3'' Ab
      \<lparr> steps = [Step ''ab'' 1 False], failure = Some (Exn ''ConnectionError'' ''reset'') \<rparr> =
     (\<lparr> curr = 2, completed = False, wid = 3, speed = Some (1 / 524288) \<rparr>, ''ab'', False,
      Some (Exn ''ConnectionError'' ''reset'')) \<and>
   download (Multidown_init 3) \<lparr> files = Map.empty, interrupt = False, effects = [] \<rparr> ''u'' ''f.3'' Ab None
      \<lparr> steps = [Step ''ab'' 1 False], failure = Some (Exn ''ConnectionError'' ''reset'') \<rparr> =
     (\<lparr> curr = 2, completed = False, wid = 3, speed = Some (1 / 524288) \<rparr>,
      \<lparr> files = [''f.3'' \<mapsto> ''ab''], interrupt = True,
        effects = [Open ''f.3'' Ab, Get ''u'' None, Sleep 1,
                   LogError ''(Thread: 3) [ConnectionError: reset]''] \<rparr>)"
proof -
  have h: "download_body (Multidown_init 3) \<lparr> files = Map.empty, interrupt = False, effects = [] \<rparr> ''f.3'' Ab
      \<lparr> steps = [Step ''ab'' 1 False], failure = Some (Exn ''ConnectionError'' ''reset'') \<rparr> =
     (\<lparr> curr = 2, completed = False, wid = 3, speed = Some (1 / 524288) \<rparr>, ''ab'', False,
      Some (Exn ''ConnectionError'' ''reset''))"
    by (simp add: download_body_def chunk_speed_ab Multidown_init_def Basicdown_init_def Let_def)
  show ?thesis
    using h error_handling [OF h, of "''u''" None]
    by (simp add: Multidown_init_def Basicdown_init_def str_int_def str_nat.simps digit_char_def)
qed

text \<open>
  C6 as stated fails: a \<open>Simpledown\<close> worker whose request raises at once sets the event,
  sleeps, logs, and is then marked completed by line 170.
\<close>

theorem whole_file_completed_after_error:
  "Simpledown_worker ''u'' ''f'' None Basicdown_init
      \<lparr> files = Map.empty, interrupt = False, effects = [] \<rparr>
      \<lparr> steps = [], failure = Some (Exn ''ConnectionError'' ''reset'') \<rparr> =
     (\<lparr> curr = 0, completed = True, wid = 0, speed = Some 0 \<rparr>,
      \<lparr> files = [''f'' \<mapsto> []], interrupt = True,
        effects = [Open ''f'' Wb, Get ''u'' None, Sleep 1,
                   LogError ''(Thread: 0) [ConnectionError: reset]''] \<rparr>)"
  by (simp add: Simpledown_worker_def download_def download_body_def Basicdown_init_def Let_def
      log_line_def str_int_def str_nat.simps digit_char_def)

subsection \<open>C9: cancellation is seen once per chunk\<close>

text \<open>
  Whatever happens (also when line 138 or the transport raises), the loop has written the
  first \<open>m\<close> chunks of the stream, in order, for some \<open>m\<close> that is at most 1 when the
  event was set from the start and at most \<open>i + 1\<close> when the event is found set at the
  test that follows chunk number \<open>i\<close>.
\<close>

lemma download_writes_prefix:
  "\<exists>m \<le> length (steps resp).
      files (snd (download w s url path md kw resp)) path =
        Some ((case md of Wb \<Rightarrow> [] | Ab \<Rightarrow> (case files s path of None \<Rightarrow> [] | Some c \<Rightarrow> c)) @
              concat (map data (take m (steps resp)))) \<and>
      curr (fst (download w s url path md kw resp)) =
        curr w + int (length (concat (map data (take m (steps resp))))) \<and>
      completed (fst (download w s url path md kw resp)) = completed w \<and>
      (interrupt s \<longrightarrow> m \<le> 1) \<and>
      (\<forall>i < length (steps resp). signalled (steps resp ! i) \<longrightarrow> m \<le> i + 1)"
proof -
  let ?f0 = "case md of Wb \<Rightarrow> [] | Ab \<Rightarrow> (case files s path of None \<Rightarrow> [] | Some c \<Rightarrow> c)"
  obtain w1 f1 intr1 ex where b: "download_body w s path md resp = (w1, f1, intr1, ex)"
    by (cases "download_body w s path md resp") auto
  then have l: "download_loop w ?f0 (interrupt s) (steps resp) (failure resp) = (w1, f1, intr1, ex)"
    by (simp add: download_body_def)
  from download_loop_prefix [OF l] obtain m where m: "m \<le> length (steps resp)"
    "f1 = ?f0 @ concat (map data (take m (steps resp)))"
    "curr w1 = curr w + int (length (concat (map data (take m (steps resp)))))"
    "interrupt s \<longrightarrow> m \<le> 1"
    "\<forall>i < length (steps resp). signalled (steps resp ! i) \<longrightarrow> m \<le> i + 1"
    by blast
  have c: "completed w1 = completed w" using download_loop_fields [OF l] by simp
  show ?thesis
    using m(1,4,5) by (intro exI [of _ m]) (simp add: download_result [OF b] m(2,3) c)
qed

text \<open>
  The loop stops exactly at the first test that finds the event set: the chunk in flight
  is written and counted, the test follows, and nothing is read after it.
\<close>

lemma download_loop_stops_at:
  assumes "i < length sts"
      and "intr \<or> signalled (sts ! i)"
      and "\<forall>j<i. \<not> intr \<and> \<not> signalled (sts ! j)"
      and "\<forall>j\<le>i. elapsed (sts ! j) \<noteq> 0 \<and> length (data (sts ! j)) < 2 ^ 53"
  shows "\<exists>w1. download_loop w f intr sts fin =
           (w1, f @ concat (map data (take (Suc i) sts)), True, None) \<and>
         curr w1 = curr w + int (length (concat (map data (take (Suc i) sts)))) \<and>
         speed w1 = fl (of_int (int (length (data (sts ! i)))) / 1048576 / elapsed (sts ! i)) \<and>
         completed w1 = completed w \<and> wid w1 = wid w"
  using assms
proof (induction sts arbitrary: i w f intr)
  case Nil
  then show ?case by simp
next
  case (Cons st rest)
  from Cons.prems(4) have "elapsed ((st # rest) ! 0) \<noteq> 0 \<and> length (data ((st # rest) ! 0)) < 2 ^ 53"
    by blast
  then have c: "chunk_speed (data st) (elapsed st) =
      Inr (fl (of_int (int (length (data st))) / 1048576 / elapsed st))"
    by (intro chunk_speed_value) simp_all
  show ?case
  proof (cases i)
    case 0
    with Cons.prems(2) have "intr \<or> signalled st" by simp
    then show ?thesis using 0 by (simp add: c Let_def)
  next
    case (Suc i')
    from Cons.prems(3) Suc have n: "\<not> intr" "\<not> signalled st" by auto
    let ?w2 = "w\<lparr>curr := curr w + int (length (data st)),
                  speed := fl (of_int (int (length (data st))) / 1048576 / elapsed st)\<rparr>"
    have a1: "i' < length rest" using Cons.prems(1) Suc by simp
    have a2: "False \<or> signalled (rest ! i')" using Cons.prems(2) Suc n by simp
    have a3: "\<forall>j<i'. \<not> False \<and> \<not> signalled (rest ! j)"
    proof (intro allI impI)
      fix j assume "j < i'"
      then have "Suc j < i" using Suc by simp
      with Cons.prems(3) have "\<not> signalled ((st # rest) ! Suc j)" by blast
      then show "\<not> False \<and> \<not> signalled (rest ! j)" by simp
    qed
    have a4: "\<forall>j\<le>i'. elapsed (rest ! j) \<noteq> 0 \<and> length (data (rest ! j)) < 2 ^ 53"
    proof (intro allI impI)
      fix j assume "j \<le> i'"
      then have "Suc j \<le> i" using Suc by simp
      with Cons.prems(4) have "elapsed ((st # rest) ! Suc j) \<noteq> 0 \<and>
          length (data ((st # rest) ! Suc j)) < 2 ^ 53" by blast
      then show "elapsed (rest ! j) \<noteq> 0 \<and> length (data (rest ! j)) < 2 ^ 53" by simp
    qed
    from Cons.IH [OF a1 a2 a3 a4, of ?w2 "f @ data st"] obtain w1 where
      w1: "download_loop ?w2 (f @ data st) False rest fin =
           (w1, (f @ data st) @ concat (map data (take (Suc i') rest)), True, None)"
          "curr w1 = curr ?w2 + int (length (concat (map data (take (Suc i') rest))))"
          "speed w1 = fl (of_int (int (length (data (rest ! i')))) / 1048576 / elapsed (rest ! i'))"
          "completed w1 = completed ?w2" "wid w1 = wid ?w2"
      by blast
    have "download_loop w f intr (st # rest) fin =
           (w1, f @ concat (map data (take (Suc i) (st # rest))), True, None)"
      using n w1(1) Suc by (simp add: c Let_def)
    with w1(2-5) Suc show ?thesis by (intro exI [of _ w1]) simp
  qed
qed

text \<open>
  C9 (as amended): let the event be found set for the first time at the test that
  follows chunk number \<open>i\<close> (counting from 0; it was set before the loop started when
  \<open>i = 0\<close> and \<open>interrupt\<close> holds, or by another thread while chunk \<open>i\<close> was in flight),
  and let line 138 raise on none of the chunks up to \<open>i\<close>.  Then the loop of
  \<open>Basicdown.download\<close> writes and counts exactly the chunks \<open>0..i\<close>, the chunk in flight
  being the last, and reads nothing further: the file on disk is what it held (in append
  mode) followed by those chunks, \<open>curr\<close> has grown by their length, \<open>speed\<close> is that of
  chunk \<open>i\<close>, the event stays set, nothing is raised or logged, and \<open>download\<close> returns
  to the worker with \<open>completed\<close> and \<open>id\<close> as they were.  What the calling worker then
  does to \<open>completed\<close> is its own rule (C5).
\<close>

theorem cancellation_seen_after_chunk:
  assumes "i < length (steps resp)"
      and "interrupt s \<or> signalled (steps resp ! i)"
      and "\<forall>j<i. \<not> interrupt s \<and> \<not> signalled (steps resp ! j)"
      and "\<forall>j\<le>i. elapsed (steps resp ! j) \<noteq> 0 \<and> length (data (steps resp ! j)) < 2 ^ 53"
  shows "\<exists>w'. download w s url path md kw resp =
           (w', \<lparr> files = (files s)(path \<mapsto>
                    (case md of Wb \<Rightarrow> [] | Ab \<Rightarrow> (case files s path of None \<Rightarrow> [] | Some c \<Rightarrow> c)) @
                    concat (map data (take (Suc i) (steps resp)))),
                  interrupt = True,
                  effects = effects s @ [Open path md, Get url kw] \<rparr>) \<and>
         curr w' = curr w + int (length (concat (map data (take (Suc i) (steps resp))))) \<and>
         speed w' = fl (of_int (int (length (data (steps resp ! i)))) / 1048576 / elapsed (steps resp ! i)) \<and>
         completed w' = completed w \<and> wid w' = wid w"
proof -
  let ?f0 = "case md of Wb \<Rightarrow> [] | Ab \<Rightarrow> (case files s path of None \<Rightarrow> [] | Some c \<Rightarrow> c)"
  from download_loop_stops_at [OF assms, of w ?f0 "failure resp"] obtain w1 where
    l: "download_loop w ?f0 (interrupt s) (steps resp) (failure resp) =
          (w1, ?f0 @ concat (map data (take (Suc i) (steps resp))), True, None)"
    and f: "curr w1 = curr w + int (length (concat (map data (take (Suc i) (steps resp)))))"
       "speed w1 = fl (of_int (int (length (data (steps resp ! i)))) / 1048576 / elapsed (steps resp ! i))"
       "completed w1 = completed w" "wid w1 = wid w"
    by blast
  from l have b: "download_body w s path md resp =
      (w1, ?f0 @ concat (map data (take (Suc i) (steps resp))), True, None)"
    by (simp add: download_body_def)
  show ?thesis
    using f by (intro exI [of _ w1]) (simp add: download_result [OF b])
qed

theorem cancellation_seen_after_chunk_witness:
  "signalled (steps \<lparr> steps = [Step ''ab'' 1 False, Step ''cd'' 1 True, Step ''ef'' 1 False], failure = None \<rparr> ! 1) \<and> \<not> signalled (steps \<lparr> steps = [Step ''ab'' 1 False, Step ''cd'' 1 True, Step ''ef'' 1 False], failure = None \<rparr> ! 0) \<and> \<not> interrupt \<lparr> files = [''f.0'' \<mapsto> ''xy''], interrupt = False, effects = [] \<rparr> \<and>
   (\<exists>w'. download Basicdown_init \<lparr> files = [''f.0'' \<mapsto> ''xy''], interrupt = False, effects = [] \<rparr> ''u'' ''f.0'' Ab None \<lparr> steps = [Step ''ab'' 1 False, Step ''cd'' 1 True, Step ''ef'' 1 False], failure = None \<rparr> =
           (w', \<lparr> files = [''f.0'' \<mapsto> ''xyabcd''], interrupt = True,
                  effects = [Open ''f.0'' Ab, Get ''u'' None] \<rparr>) \<and>
         curr w' = 4 \<and> \<not> completed w')"
proof -
  have h1: "1 < length (steps \<lparr> steps = [Step ''ab'' 1 False, Step ''cd'' 1 True, Step ''ef'' 1 False], failure = None \<rparr>)" by simp
  have h2: "interrupt \<lparr> files = [''f.0'' \<mapsto> ''xy''], interrupt = False, effects = [] \<rparr> \<or> signalled (steps \<lparr> steps = [Step ''ab'' 1 False, Step ''cd'' 1 True, Step ''ef'' 1 False], failure = None \<rparr> ! 1)" by simp
  have h3: "\<forall>j<1. \<not> interrupt \<lparr> files = [''f.0'' \<mapsto> ''xy''], interrupt = False, effects = [] \<rparr> \<and> \<not> signalled (steps \<lparr> steps = [Step ''ab'' 1 False, Step ''cd'' 1 True, Step ''ef'' 1 False], failure = None \<rparr> ! j)" by simp
  have h4: "\<forall>j\<le>1. elapsed (steps \<lparr> steps = [Step ''ab'' 1 False, Step ''cd'' 1 True, Step ''ef'' 1 False], failure = None \<rparr> ! j) \<noteq> 0 \<and> length (data (steps \<lparr> steps = [Step ''ab'' 1 False, Step ''cd'' 1 True, Step ''ef'' 1 False], failure = None \<rparr> ! j)) < 2 ^ 53"
  proof (intro allI impI)
    fix j :: nat assume "j \<le> 1"
    then have "j = 0 \<or> j = 1" by auto
    then show "elapsed (steps \<lparr> steps = [Step ''ab'' 1 False, Step ''cd'' 1 True, Step ''ef'' 1 False], failure = None \<rparr> ! j) \<noteq> 0 \<and> length (data (steps \<lparr> steps = [Step ''ab'' 1 False, Step ''cd'' 1 True, Step ''ef'' 1 False], failure = None \<rparr> ! j)) < 2 ^ 53"
      by auto
  qed
  from cancellation_seen_after_chunk [OF h1 h2 h3 h4, of Basicdown_init "''u''" "''f.0''" Ab None]
  obtain w' where
    "download Basicdown_init \<lparr> files = [''f.0'' \<mapsto> ''xy''], interrupt = False, effects = [] \<rparr> ''u'' ''f.0'' Ab None \<lparr> steps = [Step ''ab'' 1 False, Step ''cd'' 1 True, Step ''ef'' 1 False], failure = None \<rparr> =
       (w', \<lparr> files = (files \<lparr> files = [''f.0'' \<mapsto> ''xy''], interrupt = False, effects = [] \<rparr>)(''f.0'' \<mapsto>
                (case Ab of Wb \<Rightarrow> [] | Ab \<Rightarrow> (case files \<lparr> files = [''f.0'' \<mapsto> ''xy''], interrupt = False, effects = [] \<rparr> ''f.0'' of None \<Rightarrow> [] | Some c \<Rightarrow> c)) @
                concat (map data (take (Suc 1) (steps \<lparr> steps = [Step ''ab'' 1 False, Step ''cd'' 1 True, Step ''ef'' 1 False], failure = None \<rparr>)))),
              interrupt = True,
              effects = effects \<lparr> files = [''f.0'' \<mapsto> ''xy''], interrupt = False, effects = [] \<rparr> @ [Open ''f.0'' Ab, Get ''u'' None] \<rparr>)"
    "curr w' = curr Basicdown_init + int (length (concat (map data (take (Suc 1) (steps \<lparr> steps = [Step ''ab'' 1 False, Step ''cd'' 1 True, Step ''ef'' 1 False], failure = None \<rparr>)))))"
    "completed w' = completed Basicdown_init"
    by blast
  then have "download Basicdown_init \<lparr> files = [''f.0'' \<mapsto> ''xy''], interrupt = False, effects = [] \<rparr> ''u'' ''f.0'' Ab None \<lparr> steps = [Step ''ab'' 1 False, Step ''cd'' 1 True, Step ''ef'' 1 False], failure = None \<rparr> =
           (w', \<lparr> files = [''f.0'' \<mapsto> ''xyabcd''], interrupt = True,
                  effects = [Open ''f.0'' Ab, Get ''u'' None] \<rparr>) \<and>
         curr w' = 4 \<and> \<not> completed w'"
    by (simp add: Basicdown_init_def)
  then show ?thesis by auto
qed

text \<open>
  C9 as stated fails where it says that the worker returns without marking completion.
  A \<open>Simpledown\<close> worker that finds the event already set writes one chunk of three,
  stops, leaves the partial file \<open>ab\<close>, and is marked completed by line 170.  A
  \<open>Multidown\<close> worker whose only planned bytes arrive in the chunk during which the event
  is set stops by cancellation and is marked completed by lines 210--211.
\<close>

theorem workers_completed_after_cancellation:
  "Simpledown_worker ''u'' ''f'' None Basicdown_init
      \<lparr> files = Map.empty, interrupt = True, effects = [] \<rparr>
      \<lparr> steps = [Step ''ab'' 1 False, Step ''cd'' 1 False, Step ''ef'' 1 False], failure = None \<rparr> =
     (\<lparr> curr = 2, completed = True, wid = 0, speed = Some (1 / 524288) \<rparr>,
      \<lparr> files = [''f'' \<mapsto> ''ab''], interrupt = True,
        effects = [Open ''f'' Wb, Get ''u'' None] \<rparr>) \<and>
   Multidown_worker \<lparr> table_url = ''u'', table_segments = JInt 1, table_entries =
        [(0, \<lparr> seg_start = 0, seg_end = 2, segment_size = 2, segment_path = ''f.0'' \<rparr>)] \<rparr> None (Multidown_init 0)
      \<lparr> files = Map.empty, interrupt = False, effects = [] \<rparr>
      \<lparr> steps = [Step ''ab'' 1 True, Step ''cd'' 1 False], failure = None \<rparr> =
     Inr (\<lparr> curr = 2, completed = True, wid = 0, speed = Some (1 / 524288) \<rparr>,
          \<lparr> files = [''f.0'' \<mapsto> ''ab''], interrupt = True,
            effects = [Open ''f.0'' Ab, Get ''u'' (Some [(''range'', ''bytes=0-2'')])] \<rparr>)"
  by (simp add: Simpledown_worker_def Multidown_worker_def resume_state_def download_def
      download_body_def chunk_speed_ab Basicdown_init_def Multidown_init_def range_kwargs_def
      str_int_def str_nat.simps digit_char_def Let_def)

subsection \<open>C3: how the segment count is resolved\<close>

lemma resolve_segments_plan:
  "resolve_segments loads fls pf url etg s =
     (case sidecar_plan loads fls pf url etg of Some v \<Rightarrow> v | None \<Rightarrow> s)"
proof (cases "fls pf")
  case None
  then show ?thesis
    by (simp add: resolve_segments_def read_progress_def sidecar_plan_def)
next
  case (Some text0)
  show ?thesis
  proof (cases "loads text0")
    case None
    with Some show ?thesis
      by (simp add: resolve_segments_def read_progress_def sidecar_plan_def)
  next
    case (Some progress)
    with \<open>fls pf = Some text0\<close> show ?thesis
      by (cases progress)
         (auto simp: resolve_segments_def read_progress_def sidecar_plan_def
               split: option.splits)
  qed
qed

lemma create_segment_table_fst:
  assumes "clamp_segments segments sz = Inr c"
  shows "fst (create_segment_table loads dumps fls url file_path segments sz etg) =
     fls(file_path @ ''.json'' \<mapsto> dumps (progress_record url etg
           (resolve_segments loads fls (file_path @ ''.json'') url etg (JInt c))))"
  using assms
  by (simp add: create_segment_table_def Let_def split: sum.splits prod.splits)

lemma create_segment_table_snd:
  assumes "clamp_segments segments sz = Inr c"
      and "snd (create_segment_table loads dumps fls url file_path segments sz etg) = Inr t"
  shows "table_segments t = resolve_segments loads fls (file_path @ ''.json'') url etg (JInt c) \<and>
         table_url t = url"
  using assms
  by (auto simp: create_segment_table_def Let_def split: sum.splits prod.splits)

lemma create_segment_table_depends:
  assumes "clamp_segments segments sz = Inr c"
      and "resolve_segments loads fls (file_path @ ''.json'') url etg (JInt c) =
           resolve_segments loads' fls' (file_path @ ''.json'') url etg (JInt c)"
  shows "snd (create_segment_table loads dumps fls url file_path segments sz etg) =
         snd (create_segment_table loads' dumps' fls' url file_path segments sz etg)"
  using assms
  by (simp add: create_segment_table_def Let_def split: sum.splits prod.splits)

text \<open>
  C3: for a total size below \<open>2^53\<close> bytes (where \<open>to_mb\<close> is exact), the count that
  \<open>create_segment_table\<close> writes to the sidecar and stores in the table it returns is
  the persisted \<open>segments\<close> value of a usable sidecar (present, parsed, same url, truthy
  and equal etag), and otherwise the fresh value: 5 if more than 5 segments were
  requested for less than 50 MB, else the requested number.  A sidecar that is missing,
  does not parse, is not an object, lacks a key or does not match raises nothing: the
  call goes on to write the sidecar and ends exactly as it does when no file exists.
\<close>

theorem sidecar_resolution:
  assumes "\<bar>sz\<bar> < 2 ^ 53"
  shows "fst (create_segment_table loads dumps fls url file_path segments sz etg) (file_path @ ''.json'') =
           Some (dumps (progress_record url etg
             (case sidecar_plan loads fls (file_path @ ''.json'') url etg of
                Some v \<Rightarrow> v
              | None \<Rightarrow> JInt (if segments > 5 \<and> sz < 50 * MEGABYTE then 5 else segments)))) \<and>
         (\<forall>t. snd (create_segment_table loads dumps fls url file_path segments sz etg) = Inr t \<longrightarrow>
            table_segments t =
             (case sidecar_plan loads fls (file_path @ ''.json'') url etg of
                Some v \<Rightarrow> v
              | None \<Rightarrow> JInt (if segments > 5 \<and> sz < 50 * MEGABYTE then 5 else segments))) \<and>
         (sidecar_plan loads fls (file_path @ ''.json'') url etg = None \<longrightarrow>
            snd (create_segment_table loads dumps fls url file_path segments sz etg) =
            snd (create_segment_table loads dumps Map.empty url file_path segments sz etg))"
proof -
  let ?c = "if segments > 5 \<and> sz < 50 * MEGABYTE then 5 else segments"
  have c: "clamp_segments segments sz = Inr ?c"
    using assms by (rule clamp_segments_small)
  have e: "sidecar_plan loads Map.empty (file_path @ ''.json'') url etg = None"
    by (simp add: sidecar_plan_def)
  have d: "sidecar_plan loads fls (file_path @ ''.json'') url etg = None \<Longrightarrow>
      snd (create_segment_table loads dumps fls url file_path segments sz etg) =
      snd (create_segment_table loads dumps Map.empty url file_path segments sz etg)"
    by (rule create_segment_table_depends [OF c]) (simp add: resolve_segments_plan e)
  show ?thesis
    using create_segment_table_fst [OF c, of loads dumps fls url file_path etg]
      create_segment_table_snd [OF c, of loads dumps fls url file_path etg] d
    by (simp add: resolve_segments_plan)
qed

theorem sidecar_resolution_witness:
  "\<bar>10485760\<bar> < (2::int) ^ 53 \<and>
   fst (create_segment_table (\<lambda>txt. None) json_text Map.empty ''u'' ''f'' 8 10485760 (EStr ''e''))
       (''f'' @ ''.json'') =
     Some (json_text (progress_record ''u'' (EStr ''e'') (JInt 5))) \<and>
   fst (create_segment_table (\<lambda>txt. if txt = ''S'' then Some (JObj [(''url'', JStr ''u''), (''etag'', JStr ''e''), (''segments'', JInt 7)]) else None) json_text [''f.json'' \<mapsto> ''S''] ''u'' ''f'' 8 10485760 (EStr ''e''))
       (''f'' @ ''.json'') =
     Some (json_text (progress_record ''u'' (EStr ''e'') (JInt 7))) \<and>
   fst (create_segment_table (\<lambda>txt. if txt = ''S'' then Some (JObj [(''url'', JStr ''u''), (''etag'', JStr ''e''), (''segments'', JInt 7)]) else None) json_text [''f.json'' \<mapsto> ''S''] ''u'' ''f'' 8 10485760 (EStr ''changed''))
       (''f'' @ ''.json'') =
     Some (json_text (progress_record ''u'' (EStr ''changed'') (JInt 5)))"
proof -
  have h: "\<bar>10485760\<bar> < (2::int) ^ 53" by simp
  show ?thesis
    using sidecar_resolution [OF h, of "\<lambda>txt. None" json_text Map.empty "''u''" "''f''" 8 "EStr ''e''"]
      sidecar_resolution [OF h, of "(\<lambda>txt. if txt = ''S'' then Some (JObj [(''url'', JStr ''u''), (''etag'', JStr ''e''), (''segments'', JInt 7)]) else None)" json_text "[''f.json'' \<mapsto> ''S'']" "''u''" "''f''" 8 "EStr ''e''"]
      sidecar_resolution [OF h, of "(\<lambda>txt. if txt = ''S'' then Some (JObj [(''url'', JStr ''u''), (''etag'', JStr ''e''), (''segments'', JInt 7)]) else None)" json_text "[''f.json'' \<mapsto> ''S'']" "''u''" "''f''" 8 "EStr ''changed''"]
    by (simp add: sidecar_plan_def MEGABYTE_def)
qed

subsection \<open>C8: what is written to the sidecar\<close>

text \<open>
  C8 (as amended): once line 57 has produced the clamped count, \<open>create_segment_table\<close>
  always rewrites the sidecar \<open>file_path + ".json"\<close>, whatever it held, before it
  returns or raises, and changes no other file.  What it writes is the serialisation of
  an object with exactly three members: \<open>url\<close>, \<open>etag\<close> and \<open>segments\<close>, the resolved
  count, which is also the \<open>segments\<close> item of the returned table.  The per-segment
  entries are part of the returned table only.
\<close>

theorem sidecar_rewritten:
  assumes "clamp_segments segments sz = Inr c"
  shows "fst (create_segment_table loads dumps fls url file_path segments sz etg) =
           fls(file_path @ ''.json'' \<mapsto>
             dumps (JObj [(''url'', JStr url), (''etag'', etag_json etg),
                          (''segments'', resolve_segments loads fls (file_path @ ''.json'') url etg (JInt c))])) \<and>
         (\<forall>t. snd (create_segment_table loads dumps fls url file_path segments sz etg) = Inr t \<longrightarrow>
            table_segments t = resolve_segments loads fls (file_path @ ''.json'') url etg (JInt c))"
  using create_segment_table_fst [OF assms, of loads dumps fls url file_path etg]
    create_segment_table_snd [OF assms, of loads dumps fls url file_path etg]
  by (simp add: progress_record_def)

theorem sidecar_rewritten_witness:
  "clamp_segments 4 100 = Inr 4 \<and>
   fst (create_segment_table (\<lambda>txt. None) json_text [''f.json'' \<mapsto> ''old''] ''u'' ''f'' 4 100 (EBool False)) =
     [''f.json'' \<mapsto> json_text (JObj [(''url'', JStr ''u''), (''etag'', JBool False), (''segments'', JInt 4)])]"
  using clamp_segments_4
    sidecar_rewritten [OF clamp_segments_4, of "\<lambda>txt. None" json_text "[''f.json'' \<mapsto> ''old'']" "''u''" "''f''" "EBool False"]
  by (simp add: resolve_segments_falsy)

text \<open>
  C8 as stated fails: for the 100-byte plan in 4 segments the table has four entries,
  and the sidecar that replaces the old one has the three members and no entry for any
  segment.
\<close>

theorem sidecar_has_no_segment_entries:
  "fst (create_segment_table (\<lambda>txt. None) json_text [''f.json'' \<mapsto> ''old''] ''u'' ''f'' 4 100 (EBool False)) ''f.json'' =
     Some (''{'' @ [CHR 0x22] @ ''url'' @ [CHR 0x22] @ '': '' @ [CHR 0x22] @ ''u'' @ [CHR 0x22] @ '', '' @ [CHR 0x22] @ ''etag'' @ [CHR 0x22] @ '': false, '' @
           [CHR 0x22] @ ''segments'' @ [CHR 0x22] @ '': 4}'') \<and>
   snd (create_segment_table (\<lambda>txt. None) json_text [''f.json'' \<mapsto> ''old''] ''u'' ''f'' 4 100 (EBool False)) =
     Inr \<lparr> table_url = ''u'', table_segments = JInt 4, table_entries =
         [(0, \<lparr> seg_start = 0, seg_end = 24, segment_size = 25, segment_path = ''f.0'' \<rparr>),
          (1, \<lparr> seg_start = 25, seg_end = 49, segment_size = 25, segment_path = ''f.1'' \<rparr>),
          (2, \<lparr> seg_start = 50, seg_end = 74, segment_size = 25, segment_path = ''f.2'' \<rparr>),
          (3, \<lparr> seg_start = 75, seg_end = 100, segment_size = 25, segment_path = ''f.3'' \<rparr>)] \<rparr>"
proof -
  have r: "resolve_segments (\<lambda>txt. None) [''f.json'' \<mapsto> ''old''] (''f'' @ ''.json'') ''u'' (EBool False) (JInt 4) = JInt 4"
    by (simp add: resolve_segments_falsy)
  show ?thesis
    using create_segment_table_fst [OF clamp_segments_4, of "\<lambda>txt. None" json_text "[''f.json'' \<mapsto> ''old'']" "''u''" "''f''" "EBool False"]
      create_segment_table_100_by_4 [OF r, of json_text]
    by (simp add: r [simplified] progress_record_def str_int_def str_nat.simps digit_char_def)
qed

subsection \<open>C7: combining the segment files\<close>

lemma copy_chunks_append: "copy_chunks src dest = dest @ src"
proof (induction src dest rule: copy_chunks.induct)
  case (1 src dest)
  show ?case
  proof (cases "take CHUNKSIZE src = []")
    case True
    then have "src = []" by (simp add: CHUNKSIZE_def BLOCKSIZE_def BLOCKS_def)
    then show ?thesis by (subst copy_chunks.simps) simp
  next
    case False
    have "copy_chunks src dest = copy_chunks (drop CHUNKSIZE src) (dest @ take CHUNKSIZE src)"
      using False by (subst copy_chunks.simps) (simp add: Let_def)
    also have "\<dots> = (dest @ take CHUNKSIZE src) @ drop CHUNKSIZE src"
      using False by (intro "1.IH") simp_all
    finally show ?thesis by simp
  qed
qed

lemma digit_char_inj: "a < 10 \<Longrightarrow> b < 10 \<Longrightarrow> digit_char a = digit_char b \<Longrightarrow> a = b"
proof -
  assume a: "a < 10" and b: "b < 10" and e: "digit_char a = digit_char b"
  have d: "distinct ''0123456789''" by simp
  have "a < length ''0123456789''" "b < length ''0123456789''" using a b by simp_all
  with d e show "a = b" unfolding digit_char_def by (simp only: nth_eq_iff_index_eq)
qed

lemma digit_char_in: "a < 10 \<Longrightarrow> digit_char a \<in> set ''0123456789''"
  unfolding digit_char_def by (rule nth_mem) simp

lemma str_nat_small: "n < 10 \<Longrightarrow> str_nat n = [digit_char n]"
  by (subst str_nat.simps) simp

lemma str_nat_large: "\<not> n < 10 \<Longrightarrow> str_nat n = str_nat (n div 10) @ [digit_char (n mod 10)]"
  by (subst str_nat.simps) simp

lemma str_nat_nonempty: "str_nat n \<noteq> []"
proof (cases "n < 10")
  case True
  then show ?thesis by (simp add: str_nat_small)
next
  case False
  then show ?thesis by (simp add: str_nat_large)
qed

lemma str_nat_digits: "set (str_nat n) \<subseteq> set ''0123456789''"
proof (induction n rule: str_nat.induct)
  case (1 n)
  show ?case
  proof (cases "n < 10")
    case True
    then show ?thesis using digit_char_in [of n] by (simp only: str_nat_small) simp
  next
    case False
    have "n mod 10 < 10" by simp
    then have "digit_char (n mod 10) \<in> set ''0123456789''" by (rule digit_char_in)
    with "1.IH" [OF False] show ?thesis
      by (simp only: str_nat_large [OF False]) simp
  qed
qed

lemma str_nat_inj: "str_nat n = str_nat m \<Longrightarrow> n = m"
proof (induction n arbitrary: m rule: str_nat.induct)
  case (1 n)
  show ?case
  proof (cases "n < 10")
    case n: True
    show ?thesis
    proof (cases "m < 10")
      case True
      with n "1.prems" show ?thesis
        by (simp only: str_nat_small) (simp add: digit_char_inj)
    next
      case False
      have "length (str_nat m) = Suc (length (str_nat (m div 10)))"
        by (simp only: str_nat_large [OF False]) simp
      moreover have "length (str_nat n) = 1" by (simp only: str_nat_small [OF n]) simp
      ultimately have "str_nat (m div 10) = []" using "1.prems" by simp
      then show ?thesis using str_nat_nonempty by blast
    qed
  next
    case n: False
    show ?thesis
    proof (cases "m < 10")
      case True
      have "length (str_nat n) = Suc (length (str_nat (n div 10)))"
        by (simp only: str_nat_large [OF n]) simp
      moreover have "length (str_nat m) = 1" by (simp only: str_nat_small [OF True]) simp
      ultimately have "str_nat (n div 10) = []" using "1.prems" by simp
      then show ?thesis using str_nat_nonempty by blast
    next
      case False
      from "1.prems" have "str_nat (n div 10) @ [digit_char (n mod 10)] =
          str_nat (m div 10) @ [digit_char (m mod 10)]"
        by (simp only: str_nat_large [OF n] str_nat_large [OF False])
      then have a: "str_nat (n div 10) = str_nat (m div 10)"
        and b: "digit_char (n mod 10) = digit_char (m mod 10)" by simp_all
      from "1.IH" [OF n a] have d: "n div 10 = m div 10" .
      have "n mod 10 = m mod 10" using b by (intro digit_char_inj) simp_all
      with d show ?thesis by (metis div_mult_mod_eq)
    qed
  qed
qed

lemma str_int_nonneg: "0 \<le> i \<Longrightarrow> str_int i = str_nat (nat i)"
  by (simp add: str_int_def)

lemma str_int_inj: "0 \<le> i \<Longrightarrow> 0 \<le> j \<Longrightarrow> str_int i = str_int j \<Longrightarrow> i = j"
  using str_nat_inj [of "nat i" "nat j"] by (simp add: str_int_nonneg)

lemma segment_file_neq_dest: "fp @ ''.'' @ str_int k \<noteq> fp"
  by simp

lemma segment_file_inj:
  "0 \<le> i \<Longrightarrow> 0 \<le> j \<Longrightarrow> fp @ ''.'' @ str_int i = fp @ ''.'' @ str_int j \<Longrightarrow> i = j"
  using str_int_inj by simp

lemma segment_file_neq_sidecar: "0 \<le> k \<Longrightarrow> fp @ ''.'' @ str_int k \<noteq> fp @ ''.json''"
proof
  assume k: "0 \<le> k" and e: "fp @ ''.'' @ str_int k = fp @ ''.json''"
  then have "str_nat (nat k) = ''json''" by (simp add: str_int_nonneg)
  then have "CHR ''j'' \<in> set (str_nat (nat k))" by simp
  with str_nat_digits [of "nat k"] show False by auto
qed

lemma sidecar_neq_dest: "fp @ ''.json'' \<noteq> fp"
  by simp

lemma combine_loop_present:
  assumes "distinct ks" and "\<forall>k \<in> set ks. 0 \<le> k"
      and "\<forall>k \<in> set ks. fls (fp @ ''.'' @ str_int k) = Some (c k)"
      and "fls fp = Some d"
  shows "combine_loop fp fls ks =
     ((\<lambda>p. if p = fp then Some (d @ concat (map c ks))
            else if p \<in> (\<lambda>k. fp @ ''.'' @ str_int k) ` set ks then None
            else fls p), None)"
  using assms
proof (induction ks arbitrary: fls d)
  case Nil
  then show ?case by (simp add: fun_eq_iff)
next
  case (Cons k ks)
  let ?seg = "fp @ ''.'' @ str_int k"
  let ?fls2 = "(fls(fp \<mapsto> d @ c k))(?seg := None)"
  have k: "fls ?seg = Some (c k)" and k0: "0 \<le> k" using Cons.prems by simp_all
  have ne: "?seg \<noteq> fp" by simp
  have step: "combine_loop fp fls (k # ks) = combine_loop fp ?fls2 ks"
    using k Cons.prems(4) by (simp add: Let_def copy_chunks_append)
  have others: "\<forall>j \<in> set ks. ?fls2 (fp @ ''.'' @ str_int j) = Some (c j)"
  proof
    fix j assume j: "j \<in> set ks"
    then have "j \<noteq> k" using Cons.prems(1) by auto
    moreover have "0 \<le> j" using j Cons.prems(2) by simp
    ultimately have "fp @ ''.'' @ str_int j \<noteq> ?seg"
      using k0 segment_file_inj [of j k fp] by blast
    moreover have "fp @ ''.'' @ str_int j \<noteq> fp" by simp
    moreover have "fls (fp @ ''.'' @ str_int j) = Some (c j)" using j Cons.prems(3) by simp
    ultimately show "?fls2 (fp @ ''.'' @ str_int j) = Some (c j)" by simp
  qed
  have dest: "?fls2 fp = Some (d @ c k)" using ne by simp
  have "combine_loop fp ?fls2 ks =
     ((\<lambda>p. if p = fp then Some ((d @ c k) @ concat (map c ks))
            else if p \<in> (\<lambda>k. fp @ ''.'' @ str_int k) ` set ks then None
            else ?fls2 p), None)"
    using Cons.prems(1,2) others dest by (intro Cons.IH) simp_all
  then show ?case
    unfolding step by (auto simp: fun_eq_iff)
qed

text \<open>
  C7: when the segment files \<open>file_path.0\<close> to \<open>file_path.(segments - 1)\<close> and the
  sidecar \<open>file_path.json\<close> exist, \<open>combine_files\<close> raises nothing and leaves a file
  system in which the destination holds exactly the contents of the segment files
  concatenated in increasing index order, every segment file and the sidecar are gone,
  and every other file is as it was.  (Each segment file is removed right after its
  loop pass has copied it; the sidecar is removed after the loop.)
\<close>

theorem combine_files_concatenates:
  assumes "\<forall>k \<in> set [0..segments - 1]. fls (file_path @ ''.'' @ str_int k) = Some (c k)"
      and "fls (file_path @ ''.json'') = Some j"
  shows "combine_files file_path segments fls =
     ((\<lambda>p. if p = file_path then Some (concat (map c [0..segments - 1]))
            else if p = file_path @ ''.json'' then None
            else if p \<in> (\<lambda>k. file_path @ ''.'' @ str_int k) ` set [0..segments - 1] then None
            else fls p), None)"
proof -
  let ?ks = "[0..segments - 1]"
  let ?fls0 = "fls(file_path \<mapsto> [])"
  have a: "\<forall>k \<in> set ?ks. ?fls0 (file_path @ ''.'' @ str_int k) = Some (c k)"
    using assms(1) by simp
  have l: "combine_loop file_path ?fls0 ?ks =
     ((\<lambda>p. if p = file_path then Some ([] @ concat (map c ?ks))
            else if p \<in> (\<lambda>k. file_path @ ''.'' @ str_int k) ` set ?ks then None
            else ?fls0 p), None)"
    using a by (intro combine_loop_present) simp_all
  have s: "file_path @ ''.json'' \<notin> (\<lambda>k. file_path @ ''.'' @ str_int k) ` set ?ks"
  proof
    assume "file_path @ ''.json'' \<in> (\<lambda>k. file_path @ ''.'' @ str_int k) ` set ?ks"
    then obtain k where k: "k \<in> set ?ks"
      and e: "file_path @ ''.json'' = file_path @ ''.'' @ str_int k" by (rule imageE)
    from k have "0 \<le> k" by simp
    then have "file_path @ ''.'' @ str_int k \<noteq> file_path @ ''.json''"
      by (rule segment_file_neq_sidecar)
    from this e [symmetric] show False by (rule notE)
  qed
  show ?thesis
    using s assms(2) by (auto simp: combine_files_def l Let_def fun_eq_iff)
qed

theorem combine_files_concatenates_witness:
  "[''f.0'' \<mapsto> ''ab'', ''f.1'' \<mapsto> ''cd'', ''f.json'' \<mapsto> ''{}'', ''g'' \<mapsto> ''x''] (''f'' @ ''.'' @ str_int 0) = Some ''ab'' \<and>
   [''f.0'' \<mapsto> ''ab'', ''f.1'' \<mapsto> ''cd'', ''f.json'' \<mapsto> ''{}'', ''g'' \<mapsto> ''x''] (''f'' @ ''.'' @ str_int 1) = Some ''cd'' \<and>
   [''f.0'' \<mapsto> ''ab'', ''f.1'' \<mapsto> ''cd'', ''f.json'' \<mapsto> ''{}'', ''g'' \<mapsto> ''x''] (''f'' @ ''.json'') = Some ''{}'' \<and>
   map (fst (combine_files ''f'' 2 [''f.0'' \<mapsto> ''ab'', ''f.1'' \<mapsto> ''cd'', ''f.json'' \<mapsto> ''{}'', ''g'' \<mapsto> ''x''])) [''f'', ''f.0'', ''f.1'', ''f.json'', ''g''] =
     [Some ''abcd'', None, None, None, Some ''x''] \<and>
   snd (combine_files ''f'' 2 [''f.0'' \<mapsto> ''ab'', ''f.1'' \<mapsto> ''cd'', ''f.json'' \<mapsto> ''{}'', ''g'' \<mapsto> ''x'']) = None"
proof -
  have u: "[0..2 - 1] = [0, 1::int]" by (simp add: upto.simps)
  have h1: "\<forall>k \<in> set [0..2 - 1].
       [''f.0'' \<mapsto> ''ab'', ''f.1'' \<mapsto> ''cd'', ''f.json'' \<mapsto> ''{}'', ''g'' \<mapsto> ''x''] (''f'' @ ''.'' @ str_int k) =
         Some (if k = 0 then ''ab'' else ''cd'')"
    unfolding u by (simp add: str_int_def str_nat.simps digit_char_def)
  have h2: "[''f.0'' \<mapsto> ''ab'', ''f.1'' \<mapsto> ''cd'', ''f.json'' \<mapsto> ''{}'', ''g'' \<mapsto> ''x''] (''f'' @ ''.json'') = Some ''{}''"
    by simp
  have i: "(\<lambda>k. ''f'' @ ''.'' @ str_int k) ` set [0, 1] = {''f.0'', ''f.1''}"
    by (simp add: str_int_def str_nat.simps digit_char_def)
  note e = combine_files_concatenates [OF h1 h2, unfolded u i]
  show ?thesis
    by (simp add: e str_int_def str_nat.simps digit_char_def)
qed

end
